theory Spec2Isabelle
  imports Main "HOL-Library.Word"
begin

unbundle bit_operations_syntax

section \<open>The simulated physical memory (hw1/os.c)\<close>

type_synonym u64 = "64 word"

text \<open>
  A pointer is a block (one region handed out by \<^verbatim>\<open>mmap\<close>, or none for the null
  block) and a byte offset. \<^verbatim>\<open>NULL\<close> is the null block at offset 0; pointer
  arithmetic moves the offset only.
\<close>

datatype ptr = Ptr (block: "nat option") (offs: u64)

abbreviation NULL :: ptr where
  "NULL \<equiv> Ptr None 0"

definition ptr_add :: "ptr \<Rightarrow> u64 \<Rightarrow> ptr" where
  "ptr_add p n = Ptr (block p) (offs p + n)"

text \<open>
  A frame is one 8 KiB region, read and written by the page-table code as 1024
  slots of 64 bits.
\<close>

type_synonym frame = "nat \<Rightarrow> u64"

definition zero_frame :: frame where
  "zero_frame = (\<lambda>_. 0)"

text \<open>\<^verbatim>\<open>#define NPAGES (1024*1024)\<close>, and the literal \<^verbatim>\<open>0xbaaaaaad\<close> that
  \<^verbatim>\<open>alloc_page_frame\<close> adds and \<^verbatim>\<open>phys_to_virt\<close> subtracts.\<close>

definition NPAGES :: nat where
  "NPAGES = 1024 * 1024"

definition BIAS :: u64 where
  "BIAS = 0xbaaaaaad"

text \<open>
  The state of the process: the static counter \<^verbatim>\<open>nalloc\<close>, the static array
  \<^verbatim>\<open>pages\<close>, the regions mapped so far with their contents, and the number of
  regions the kernel is willing to map before \<^verbatim>\<open>mmap\<close> answers
  \<^verbatim>\<open>MAP_FAILED\<close>.
\<close>

record os_state =
  nalloc :: u64
  pages :: "nat \<Rightarrow> ptr"
  heap :: "frame list"
  vm_limit :: nat

text \<open>Static storage is zero-initialised: no frame allocated, every registry entry null.\<close>

definition init_state :: "nat \<Rightarrow> os_state" where
  "init_state lim = \<lparr>nalloc = 0, pages = (\<lambda>_. NULL), heap = [], vm_limit = lim\<rparr>"

datatype fatal = OutOfPhysicalMemory | MmapFailed | MemoryFault

text \<open>\<^verbatim>\<open>mmap(NULL, 1 << 13, ..., MAP_PRIVATE|MAP_ANONYMOUS, -1, 0)\<close>: a fresh
  zero-filled region, or \<^verbatim>\<open>MAP_FAILED\<close> (\<open>None\<close>).\<close>

definition mmap_anon :: "os_state \<Rightarrow> (ptr \<times> os_state) option" where
  "mmap_anon s =
     (if length (heap s) < vm_limit s
      then Some (Ptr (Some (length (heap s))) 0, s\<lparr>heap := heap s @ [zero_frame]\<rparr>)
      else None)"

definition alloc_page_frame :: "os_state \<Rightarrow> fatal + (u64 \<times> os_state)" where
  "alloc_page_frame s =
     (if nalloc s = of_nat NPAGES then Inl OutOfPhysicalMemory
      else
        let ppn = nalloc s;
            s1 = s\<lparr>nalloc := nalloc s + 1\<rparr>
        in case mmap_anon s1 of
             None \<Rightarrow> Inl MmapFailed
           | Some (va, s2) \<Rightarrow>
               if unat ppn < NPAGES
               then Inr (ppn + BIAS, s2\<lparr>pages := (pages s2)(unat ppn := va)\<rparr>)
               else Inl MemoryFault)"

definition phys_to_virt :: "os_state \<Rightarrow> u64 \<Rightarrow> ptr" where
  "phys_to_virt s phys_addr =
     (let ppn = drop_bit 13 phys_addr - BIAS;
          off = phys_addr AND 0x1fff
      in if ppn < of_nat NPAGES then ptr_add (pages s (unat ppn)) off else NULL)"

text \<open>
  \<^verbatim>\<open>((uint64_t *) p)[i]\<close>: the slot addressed, when the pointer lies in a mapped
  region, is aligned and stays inside the 8 KiB of the region. Anything else is a
  memory fault.
\<close>

definition slot_of :: "os_state \<Rightarrow> ptr \<Rightarrow> u64 \<Rightarrow> (nat \<times> nat) option" where
  "slot_of s p i =
     (case block p of
        None \<Rightarrow> None
      | Some b \<Rightarrow>
          let a = unat (offs p) + 8 * unat i
          in if b < length (heap s) \<and> a mod 8 = 0 \<and> a div 8 < 1024
             then Some (b, a div 8) else None)"

definition load64 :: "os_state \<Rightarrow> ptr \<Rightarrow> u64 \<Rightarrow> fatal + u64" where
  "load64 s p i =
     (case slot_of s p i of
        None \<Rightarrow> Inl MemoryFault
      | Some (b, k) \<Rightarrow> Inr ((heap s ! b) k))"

definition store64 :: "os_state \<Rightarrow> ptr \<Rightarrow> u64 \<Rightarrow> u64 \<Rightarrow> fatal + os_state" where
  "store64 s p i v =
     (case slot_of s p i of
        None \<Rightarrow> Inl MemoryFault
      | Some (b, k) \<Rightarrow> Inr (s\<lparr>heap := (heap s)[b := (heap s ! b)(k := v)]\<rparr>))"

section \<open>The page-table walker (hw1/pt.c)\<close>

text \<open>The constants of pt.c that the code below uses.\<close>

definition PAGE_TABLE_LEVELS :: nat where
  "PAGE_TABLE_LEVELS = 5"

definition LEVEL_MASK :: u64 where
  "LEVEL_MASK = 0x3ff"

abbreviation PAGE_SIZE_BITS :: nat where
  "PAGE_SIZE_BITS \<equiv> 13"

abbreviation PTE_FRAME_SHIFT :: nat where
  "PTE_FRAME_SHIFT \<equiv> 13"

abbreviation BITS_PER_LEVEL :: nat where
  "BITS_PER_LEVEL \<equiv> 10"

text \<open>
  The loop of \<^verbatim>\<open>split_vpn\<close> runs \<open>i\<close> from 4 down to 0; \<open>split_loop (Suc i)\<close> is
  the iteration that fills \<open>indices[i]\<close>. The array is a local of the caller and is
  overwritten in every position.
\<close>

fun split_loop :: "nat \<Rightarrow> u64 \<Rightarrow> u64 list \<Rightarrow> u64 list" where
  "split_loop 0 vpn indices = indices"
| "split_loop (Suc i) vpn indices =
     split_loop i (drop_bit BITS_PER_LEVEL vpn) (indices[i := vpn AND LEVEL_MASK])"

definition split_vpn :: "u64 \<Rightarrow> u64 list" where
  "split_vpn vpn = split_loop PAGE_TABLE_LEVELS vpn (replicate PAGE_TABLE_LEVELS 0)"

text \<open>
  The loop over the interior levels 0..3 of \<^verbatim>\<open>page_table_update\<close>, as a recursion
  over \<open>indices[0..3]\<close>. The sentinel \<^verbatim>\<open>NO_MAPPING\<close> is declared in
  \<^verbatim>\<open>os.h\<close>, which is not among the sources: it is the parameter \<open>nm\<close>.
  The result \<open>None\<close> is the early \<^verbatim>\<open>return\<close>; \<open>Some table\<close> is the table
  the loop leaves in \<^verbatim>\<open>table\<close>.
\<close>

fun update_walk ::
  "u64 \<Rightarrow> u64 \<Rightarrow> u64 list \<Rightarrow> ptr \<Rightarrow> os_state \<Rightarrow> fatal + (ptr option \<times> os_state)" where
  "update_walk nm ppn [] table s = Inr (Some table, s)"
| "update_walk nm ppn (i # is) table s =
     (case load64 s table i of
        Inl e \<Rightarrow> Inl e
      | Inr entry \<Rightarrow>
          if entry AND 1 = 0 then
            if ppn = nm then Inr (None, s)
            else
              (case alloc_page_frame s of
                 Inl e \<Rightarrow> Inl e
               | Inr (new_pt, s1) \<Rightarrow>
                   (case store64 s1 table i (push_bit PTE_FRAME_SHIFT new_pt OR 1) of
                      Inl e \<Rightarrow> Inl e
                    | Inr s2 \<Rightarrow>
                        update_walk nm ppn is
                          (phys_to_virt s2 (push_bit PAGE_SIZE_BITS new_pt)) s2))
          else
            (let next_pt = drop_bit PTE_FRAME_SHIFT entry
             in update_walk nm ppn is (phys_to_virt s (push_bit PAGE_SIZE_BITS next_pt)) s))"

definition page_table_update ::
  "os_state \<Rightarrow> u64 \<Rightarrow> u64 \<Rightarrow> u64 \<Rightarrow> u64 \<Rightarrow> fatal + os_state" where
  "page_table_update s nm pt vpn ppn =
     (let indices = split_vpn vpn;
          table = phys_to_virt s (push_bit PAGE_SIZE_BITS pt)
      in case update_walk nm ppn (take (PAGE_TABLE_LEVELS - 1) indices) table s of
           Inl e \<Rightarrow> Inl e
         | Inr (None, s') \<Rightarrow> Inr s'
         | Inr (Some table', s') \<Rightarrow>
             if ppn = nm
             then store64 s' table' (indices ! (PAGE_TABLE_LEVELS - 1)) 0
             else store64 s' table' (indices ! (PAGE_TABLE_LEVELS - 1))
                    (push_bit PTE_FRAME_SHIFT ppn OR 1))"

text \<open>The interior loop of \<^verbatim>\<open>page_table_query\<close>; \<open>None\<close> is the early
  \<^verbatim>\<open>return NO_MAPPING\<close>.\<close>

fun query_walk :: "u64 list \<Rightarrow> ptr \<Rightarrow> os_state \<Rightarrow> fatal + ptr option" where
  "query_walk [] table s = Inr (Some table)"
| "query_walk (i # is) table s =
     (case load64 s table i of
        Inl e \<Rightarrow> Inl e
      | Inr entry \<Rightarrow>
          if entry AND 1 = 0 then Inr None
          else
            (let next_pt = drop_bit PTE_FRAME_SHIFT entry
             in query_walk is (phys_to_virt s (push_bit PAGE_SIZE_BITS next_pt)) s))"

definition page_table_query :: "os_state \<Rightarrow> u64 \<Rightarrow> u64 \<Rightarrow> u64 \<Rightarrow> fatal + u64" where
  "page_table_query s nm pt vpn =
     (let indices = split_vpn vpn;
          table = phys_to_virt s (push_bit PAGE_SIZE_BITS pt)
      in case query_walk (take (PAGE_TABLE_LEVELS - 1) indices) table s of
           Inl e \<Rightarrow> Inl e
         | Inr None \<Rightarrow> Inr nm
         | Inr (Some table') \<Rightarrow>
             (case load64 s table' (indices ! (PAGE_TABLE_LEVELS - 1)) of
                Inl e \<Rightarrow> Inl e
              | Inr final_entry \<Rightarrow>
                  if final_entry AND 1 = 0 then Inr nm
                  else Inr (drop_bit PTE_FRAME_SHIFT final_entry)))"

section \<open>Drivers\<close>

text \<open>
  A driver such as \<^verbatim>\<open>main\<close> of os.c obtains a root with one call of
  \<^verbatim>\<open>alloc_page_frame\<close> in the initial state and then issues updates and
  queries on it; a fatal error ends the run.
\<close>

definition new_table :: "nat \<Rightarrow> fatal + (u64 \<times> os_state)" where
  "new_table lim = alloc_page_frame (init_state lim)"

definition run_update ::
  "fatal + (u64 \<times> os_state) \<Rightarrow> u64 \<Rightarrow> u64 \<Rightarrow> u64 \<Rightarrow> fatal + (u64 \<times> os_state)" where
  "run_update r nm vpn ppn =
     (case r of
        Inl e \<Rightarrow> Inl e
      | Inr (pt, s) \<Rightarrow>
          (case page_table_update s nm pt vpn ppn of
             Inl e \<Rightarrow> Inl e
           | Inr s' \<Rightarrow> Inr (pt, s')))"

definition run_query :: "fatal + (u64 \<times> os_state) \<Rightarrow> u64 \<Rightarrow> u64 \<Rightarrow> fatal + u64" where
  "run_query r nm vpn =
     (case r of
        Inl e \<Rightarrow> Inl e
      | Inr (pt, s) \<Rightarrow> page_table_query s nm pt vpn)"

section \<open>Invariants of the frame store and of a page table\<close>

text \<open>
  The registry after any number of allocations: the counter has not passed the
  capacity, one region has been mapped per allocation, entry \<open>i\<close> of \<^verbatim>\<open>pages\<close>
  points to the start of region \<open>i\<close> for every allocated \<open>i\<close>, and the other
  entries are still null.
\<close>

definition reg_ok :: "os_state \<Rightarrow> bool" where
  "reg_ok s \<longleftrightarrow>
     unat (nalloc s) \<le> NPAGES \<and> length (heap s) = unat (nalloc s) \<and>
     (\<forall>i. pages s i = (if i < unat (nalloc s) then Ptr (Some i) 0 else NULL))"

text \<open>The registry index that \<^verbatim>\<open>phys_to_virt\<close> recovers from a page number.\<close>

definition frame_of :: "u64 \<Rightarrow> nat" where
  "frame_of ppn = unat (ppn - BIAS)"

text \<open>
  The frame that slot \<open>k\<close> of table frame \<open>b\<close> refers to, when the entry there is
  valid; \<open>kids\<close> collects them over the 1024 slots.
\<close>

definition child :: "frame list \<Rightarrow> nat \<Rightarrow> nat \<Rightarrow> nat option" where
  "child H b k =
     (let e = (H ! b) k in if e AND 1 = 0 then None else Some (frame_of (drop_bit 13 e)))"

definition kids :: "frame list \<Rightarrow> nat \<Rightarrow> nat set" where
  "kids H b = {c. \<exists>k<1024. child H b k = Some c}"

text \<open>
  The frames of the table rooted at \<open>b\<close> with \<open>d\<close> interior levels below it, and
  the tree property: every frame of the table is allocated, no table frame occurs below
  itself, and the tables under different slots share no frame.
\<close>

fun foot :: "frame list \<Rightarrow> nat \<Rightarrow> nat \<Rightarrow> nat set" where
  "foot H 0 b = {b}"
| "foot H (Suc d) b = insert b (\<Union>c\<in>kids H b. foot H d c)"

fun tree_ok :: "frame list \<Rightarrow> nat \<Rightarrow> nat \<Rightarrow> bool" where
  "tree_ok H 0 b = (b < length H)"
| "tree_ok H (Suc d) b =
     (b < length H \<and>
      (\<forall>c\<in>kids H b. tree_ok H d c \<and> b \<notin> foot H d c) \<and>
      (\<forall>k<1024. \<forall>k'<1024. \<forall>c c'. child H b k = Some c \<longrightarrow> child H b k' = Some c' \<longrightarrow>
          k \<noteq> k' \<longrightarrow> foot H d c \<inter> foot H d c' = {}))"

text \<open>
  A page number \<open>pt\<close> is the root of a page table in state \<open>s\<close>: the registry is in
  order and the five-level table under the frame of \<open>pt\<close> is a tree.
\<close>

definition table_root :: "os_state \<Rightarrow> u64 \<Rightarrow> bool" where
  "table_root s pt \<longleftrightarrow> reg_ok s \<and> tree_ok (heap s) 4 (frame_of pt)"

text \<open>
  The leaf entry a path of slot numbers leads to, and 0 when an interior entry on the
  path is not valid.
\<close>

fun lookup :: "frame list \<Rightarrow> nat list \<Rightarrow> nat \<Rightarrow> u64" where
  "lookup H [] b = 0"
| "lookup H (k # ks) b =
     (if ks = [] then (H ! b) k
      else case child H b k of None \<Rightarrow> 0 | Some c \<Rightarrow> lookup H ks c)"

text \<open>What \<^verbatim>\<open>page_table_query\<close> makes of a leaf entry, and the leaf entry
  \<^verbatim>\<open>page_table_update\<close> writes.\<close>

definition decode :: "u64 \<Rightarrow> u64 \<Rightarrow> u64" where
  "decode nm e = (if e AND 1 = 0 then nm else drop_bit 13 e)"

definition leaf_val :: "u64 \<Rightarrow> u64 \<Rightarrow> u64" where
  "leaf_val nm ppn = (if ppn = nm then 0 else push_bit 13 ppn OR 1)"

text \<open>
  How one update changes the frames, seen from table frame \<open>b\<close>: frames are only
  added, old frames outside the table are untouched, the table stays a tree and grows by
  fresh frames only, the leaf entry of exactly one path changes, and at most one frame
  per interior level is added.
\<close>

definition effect :: "frame list \<Rightarrow> frame list \<Rightarrow> nat \<Rightarrow> nat list \<Rightarrow> u64 \<Rightarrow> bool" where
  "effect H H' b p v \<longleftrightarrow>
     length H \<le> length H' \<and>
     (\<forall>x<length H. x \<notin> foot H (length p - 1) b \<longrightarrow> H' ! x = H ! x) \<and>
     tree_ok H' (length p - 1) b \<and>
     foot H' (length p - 1) b \<subseteq> foot H (length p - 1) b \<union> {length H..<length H'} \<and>
     (\<forall>q. length q = length p \<longrightarrow> (\<forall>k\<in>set q. k < 1024) \<longrightarrow>
          lookup H' q b = (if q = p then v else lookup H q b)) \<and>
     length H' \<le> length H + (length p - 1)"

text \<open>
  The two walks once more, as one recursion over all five indices with the leaf step
  as the last one. They are shown below to compute \<open>page_table_update\<close> and
  \<open>page_table_query\<close>.
\<close>

fun update_from :: "u64 \<Rightarrow> u64 \<Rightarrow> u64 list \<Rightarrow> ptr \<Rightarrow> os_state \<Rightarrow> fatal + os_state" where
  "update_from nm ppn [] table s = Inr s"
| "update_from nm ppn (i # is) table s =
     (if is = [] then
        (if ppn = nm then store64 s table i 0
         else store64 s table i (push_bit 13 ppn OR 1))
      else
        (case load64 s table i of
           Inl e \<Rightarrow> Inl e
         | Inr entry \<Rightarrow>
             if entry AND 1 = 0 then
               if ppn = nm then Inr s
               else
                 (case alloc_page_frame s of
                    Inl e \<Rightarrow> Inl e
                  | Inr (new_pt, s1) \<Rightarrow>
                      (case store64 s1 table i (push_bit 13 new_pt OR 1) of
                         Inl e \<Rightarrow> Inl e
                       | Inr s2 \<Rightarrow>
                           update_from nm ppn is (phys_to_virt s2 (push_bit 13 new_pt)) s2))
             else
               update_from nm ppn is (phys_to_virt s (push_bit 13 (drop_bit 13 entry))) s))"

fun query_from :: "u64 \<Rightarrow> u64 list \<Rightarrow> ptr \<Rightarrow> os_state \<Rightarrow> fatal + u64" where
  "query_from nm [] table s = Inr nm"
| "query_from nm (i # is) table s =
     (case load64 s table i of
        Inl e \<Rightarrow> Inl e
      | Inr entry \<Rightarrow>
          if entry AND 1 = 0 then Inr nm
          else if is = [] then Inr (drop_bit 13 entry)
          else query_from nm is (phys_to_virt s (push_bit 13 (drop_bit 13 entry))) s)"

section \<open>Bit-level facts\<close>

lemma level_mask_eq: "(0x3ff::u64) = mask 10"
  by (simp add: mask_eq_exp_minus_1)

lemma offset_mask_eq: "(0x1fff::u64) = mask 13"
  by (simp add: mask_eq_exp_minus_1)

lemma split_vpn_list:
  "split_vpn vpn =
     [drop_bit 40 vpn AND 0x3ff, drop_bit 30 vpn AND 0x3ff, drop_bit 20 vpn AND 0x3ff,
      drop_bit 10 vpn AND 0x3ff, vpn AND 0x3ff]"
  by (simp add: split_vpn_def PAGE_TABLE_LEVELS_def LEVEL_MASK_def numeral_eq_Suc)

lemma split_vpn_high_bits: "split_vpn (vpn XOR push_bit 50 h) = split_vpn vpn"
  unfolding split_vpn_list level_mask_eq
  apply simp
  apply (intro conjI; rule bit_eqI; auto simp: bit_simps)
  done

section \<open>Registry and pointer facts\<close>

text \<open>
  Shifting a page number into an entry and back keeps its low 51 bits; the registry
  invariant holds initially and after every allocation; under it, a page number whose
  frame is allocated resolves to the start of that frame.
\<close>

lemma drop_push_or_13: "drop_bit 13 (push_bit 13 x OR 1) = take_bit 51 (x::u64)"
  by (rule bit_eqI) (auto simp: bit_simps)

lemma drop_push_13: "drop_bit 13 (push_bit 13 x) = take_bit 51 (x::u64)"
  by (rule bit_eqI) (auto simp: bit_simps)

lemma pte_valid_bit: "(push_bit 13 (x::u64) OR 1) AND 1 = 1"
  by (rule bit_eqI) (auto simp: bit_simps)

lemma push_low_bits: "push_bit 13 (x::u64) AND 0x1fff = 0"
  unfolding offset_mask_eq by (rule bit_eqI) (auto simp: bit_simps)

lemma take_drop_13: "take_bit 51 (drop_bit 13 (e::u64)) = drop_bit 13 e"
  by (rule bit_eqI) (auto simp: bit_simps dest: bit_imp_le_length)

lemma take_bit_51_small: "unat (x::u64) < 2 ^ 51 \<Longrightarrow> take_bit 51 x = x"
  by (simp add: word_unat_eq_iff unsigned_take_bit_eq take_bit_nat_eq_self)

lemma unat_BIAS: "unat BIAS = 3131746989"
  by (simp add: BIAS_def)

lemma unat_NPAGES: "unat (of_nat NPAGES :: u64) = NPAGES"
  by (simp add: NPAGES_def)

lemma small_frame:
  assumes "n < NPAGES"
  shows "unat (of_nat n :: u64) = n" "unat (of_nat n + BIAS) = n + 3131746989"
    "take_bit 51 (of_nat n + BIAS) = of_nat n + BIAS" "frame_of (of_nat n + BIAS) = n"
proof -
  show a: "unat (of_nat n :: u64) = n"
    using assms by (simp add: NPAGES_def unat_of_nat take_bit_nat_eq_self)
  show b: "unat (of_nat n + BIAS) = n + 3131746989"
    using assms a by (simp add: unat_word_ariths unat_BIAS NPAGES_def)
  show "take_bit 51 (of_nat n + BIAS) = of_nat n + BIAS"
    using b assms by (intro take_bit_51_small) (simp add: NPAGES_def)
  show "frame_of (of_nat n + BIAS) = n"
    using a by (simp add: frame_of_def)
qed

lemma phys_to_virt_frame:
  assumes "reg_ok s" "take_bit 51 x = x" "frame_of x < unat (nalloc s)"
  shows "phys_to_virt s (push_bit 13 x) = Ptr (Some (frame_of x)) 0"
proof -
  have "frame_of x < NPAGES" using assms by (simp add: reg_ok_def)
  then have "x - BIAS < of_nat NPAGES"
    by (simp add: word_less_nat_alt unat_NPAGES frame_of_def)
  moreover have "pages s (frame_of x) = Ptr (Some (frame_of x)) 0"
    using assms by (simp add: reg_ok_def)
  ultimately show ?thesis
    using assms(2) by (simp add: phys_to_virt_def drop_push_13 push_low_bits ptr_add_def frame_of_def)
qed

lemma load64_frame:
  assumes "b < length (heap s)" "unat i < 1024"
  shows "load64 s (Ptr (Some b) 0) i = Inr ((heap s ! b) (unat i))"
  using assms by (simp add: load64_def slot_of_def)

lemma store64_frame:
  assumes "b < length (heap s)" "unat i < 1024"
  shows "store64 s (Ptr (Some b) 0) i v = Inr (s\<lparr>heap := (heap s)[b := (heap s ! b)(unat i := v)]\<rparr>)"
  using assms by (simp add: store64_def slot_of_def)

lemma alloc_page_frame_Inr:
  assumes "alloc_page_frame s = Inr (p, s')"
  shows "unat (nalloc s) < NPAGES" "length (heap s) < vm_limit s" "p = nalloc s + BIAS"
    "s' = s\<lparr>nalloc := nalloc s + 1, heap := heap s @ [zero_frame],
            pages := (pages s)(unat (nalloc s) := Ptr (Some (length (heap s))) 0)\<rparr>"
  using assms
  by (auto simp: alloc_page_frame_def mmap_anon_def Let_def split: if_splits)

lemma alloc_page_frame_reg_ok:
  assumes "reg_ok s" "alloc_page_frame s = Inr (p, s')"
  shows "reg_ok s'" "heap s' = heap s @ [zero_frame]" "vm_limit s' = vm_limit s"
    "p = of_nat (length (heap s)) + BIAS" "length (heap s) < NPAGES"
proof -
  note a = alloc_page_frame_Inr [OF assms(2)]
  have n: "unat (nalloc s + 1) = unat (nalloc s) + 1"
    using a(1) by (simp add: unat_word_ariths NPAGES_def)
  show "reg_ok s'"
    using assms(1) a(1) by (auto simp: a(4) reg_ok_def n)
  show "heap s' = heap s @ [zero_frame]" "vm_limit s' = vm_limit s"
    by (simp_all add: a(4))
  show "p = of_nat (length (heap s)) + BIAS"
    using assms(1) by (simp add: a(3) reg_ok_def)
  show "length (heap s) < NPAGES"
    using assms(1) a(1) by (simp add: reg_ok_def)
qed

section \<open>Frames of a table\<close>

text \<open>
  A table depends only on its own frames: two lists of frames that agree on the frames
  of a table give the same frames, the same tree property and the same leaf entries.
\<close>

lemma tree_ok_SucI:
  assumes "b < length H"
    "\<And>c. c \<in> kids H b \<Longrightarrow> tree_ok H d c"
    "\<And>c. c \<in> kids H b \<Longrightarrow> b \<notin> foot H d c"
    "\<And>k k' c c'. k < 1024 \<Longrightarrow> k' < 1024 \<Longrightarrow> child H b k = Some c \<Longrightarrow>
       child H b k' = Some c' \<Longrightarrow> k \<noteq> k' \<Longrightarrow> foot H d c \<inter> foot H d c' = {}"
  shows "tree_ok H (Suc d) b"
  unfolding tree_ok.simps using assms by blast

lemma tree_ok_SucD:
  assumes "tree_ok H (Suc d) b"
  shows "b < length H"
    "c \<in> kids H b \<Longrightarrow> tree_ok H d c"
    "c \<in> kids H b \<Longrightarrow> b \<notin> foot H d c"
    "k < 1024 \<Longrightarrow> k' < 1024 \<Longrightarrow> child H b k = Some c \<Longrightarrow>
       child H b k' = Some c' \<Longrightarrow> k \<noteq> k' \<Longrightarrow> foot H d c \<inter> foot H d c' = {}"
  using assms unfolding tree_ok.simps by blast+

declare tree_ok.simps(2) [simp del]

lemma kidsI: "k < 1024 \<Longrightarrow> child H b k = Some c \<Longrightarrow> c \<in> kids H b"
  unfolding kids_def by blast

lemma kidsE: "c \<in> kids H b \<Longrightarrow> \<exists>k<1024. child H b k = Some c"
  unfolding kids_def by blast

lemma self_in_foot: "b \<in> foot H d b"
  by (cases d) simp_all

lemma tree_ok_less: "tree_ok H d b \<Longrightarrow> b < length H"
  by (cases d) (simp_all add: tree_ok_SucD(1))

lemma foot_bound: "tree_ok H d b \<Longrightarrow> foot H d b \<subseteq> {..<length H}"
proof (induction d arbitrary: b)
  case 0
  then show ?case by simp
next
  case (Suc d)
  have "foot H d c \<subseteq> {..<length H}" if "c \<in> kids H b" for c
    using Suc.IH tree_ok_SucD(2) [OF Suc.prems that] .
  then show ?case using tree_ok_SucD(1) [OF Suc.prems] by auto
qed

lemma kid_foot: "c \<in> kids H b \<Longrightarrow> foot H d c \<subseteq> foot H (Suc d) b"
  by auto

lemma child_cong: "H' ! b = H ! b \<Longrightarrow> child H' b k = child H b k"
  by (simp add: child_def)

lemma kids_cong: "H' ! b = H ! b \<Longrightarrow> kids H' b = kids H b"
  by (simp add: kids_def child_def)

lemma frame_same:
  assumes "tree_ok H d b" "length H \<le> length H'" "\<forall>x\<in>foot H d b. H' ! x = H ! x"
  shows "foot H' d b = foot H d b \<and> tree_ok H' d b"
  using assms
proof (induction d arbitrary: b)
  case 0
  then show ?case by simp
next
  case (Suc d)
  note ok = tree_ok_SucD [OF Suc.prems(1)]
  have b: "H' ! b = H ! b" using Suc.prems(3) self_in_foot by blast
  have ch: "child H' b k = child H b k" for k using b by (rule child_cong)
  have ks: "kids H' b = kids H b" using b by (rule kids_cong)
  have sub: "foot H' d c = foot H d c \<and> tree_ok H' d c" if "c \<in> kids H b" for c
  proof (rule Suc.IH)
    show "tree_ok H d c" using ok(2) that .
    show "length H \<le> length H'" by fact
    show "\<forall>x\<in>foot H d c. H' ! x = H ! x" using Suc.prems(3) kid_foot [OF that] by blast
  qed
  have f: "foot H' (Suc d) b = foot H (Suc d) b"
  proof -
    have "(\<Union>c\<in>kids H b. foot H' d c) = (\<Union>c\<in>kids H b. foot H d c)"
      by (rule SUP_cong [OF refl]) (simp add: sub)
    then show ?thesis by (simp add: ks)
  qed
  have "tree_ok H' (Suc d) b"
  proof (rule tree_ok_SucI)
    show "b < length H'" using ok(1) Suc.prems(2) by simp
  next
    fix c assume "c \<in> kids H' b"
    then have c: "c \<in> kids H b" by (simp add: ks)
    show "tree_ok H' d c" using sub [OF c] by simp
    show "b \<notin> foot H' d c" using sub [OF c] ok(3) [OF c] by simp
  next
    fix k k' c c'
    assume a: "k < 1024" "k' < 1024" "child H' b k = Some c" "child H' b k' = Some c'" "k \<noteq> k'"
    then have 1: "child H b k = Some c" "child H b k' = Some c'" by (simp_all add: ch)
    have "foot H d c \<inter> foot H d c' = {}" using ok(4) [OF a(1,2) 1 a(5)] .
    then show "foot H' d c \<inter> foot H' d c' = {}"
      using sub [OF kidsI [OF a(1) 1(1)]] sub [OF kidsI [OF a(2) 1(2)]] by simp
  qed
  with f show ?case by simp
qed

lemma lookup_same:
  assumes "tree_ok H (length q - 1) b" "length H \<le> length H'"
    "\<forall>x\<in>foot H (length q - 1) b. H' ! x = H ! x" "\<forall>k\<in>set q. k < 1024"
  shows "lookup H' q b = lookup H q b"
  using assms
proof (induction q arbitrary: b)
  case Nil
  then show ?case by simp
next
  case (Cons k ks)
  have b: "H' ! b = H ! b" using Cons.prems(3) self_in_foot by blast
  show ?case
  proof (cases "ks = []")
    case True
    then show ?thesis using b by simp
  next
    case False
    then obtain d where d: "length ks = Suc d" by (cases ks) auto
    have ch: "child H' b k = child H b k" using b by (rule child_cong)
    have ok: "tree_ok H (Suc d) b" using Cons.prems(1) by (simp add: d)
    show ?thesis
    proof (cases "child H b k")
      case None
      then show ?thesis using False ch by simp
    next
      case (Some c)
      then have c: "c \<in> kids H b" using Cons.prems(4) by (intro kidsI [of k]) simp_all
      have "lookup H' ks c = lookup H ks c"
      proof (rule Cons.IH)
        show "tree_ok H (length ks - 1) c" using tree_ok_SucD(2) [OF ok c] by (simp add: d)
        show "length H \<le> length H'" by fact
        show "\<forall>x\<in>foot H (length ks - 1) c. H' ! x = H ! x"
          using Cons.prems(3) kid_foot [OF c, of d] by (auto simp: d)
        show "\<forall>k\<in>set ks. k < 1024" using Cons.prems(4) by simp
      qed
      then show ?thesis using False ch Some by simp
    qed
  qed
qed

lemma zero_frame_child: "H ! n = zero_frame \<Longrightarrow> child H n k = None"
  by (simp add: child_def zero_frame_def)

lemma zero_frame_tree:
  assumes "H ! n = zero_frame" "n < length H"
  shows "tree_ok H d n" "foot H d n = {n}" "q \<noteq> [] \<Longrightarrow> lookup H q n = 0"
proof -
  have k: "kids H n = {}" using assms(1) by (simp add: kids_def zero_frame_child)
  show "tree_ok H d n"
  proof (cases d)
    case 0
    then show ?thesis using assms(2) by simp
  next
    case (Suc d')
    show ?thesis unfolding Suc
      by (rule tree_ok_SucI) (simp_all add: assms k zero_frame_child)
  qed
  show "foot H d n = {n}" using k by (cases d) simp_all
  show "lookup H q n = 0" if "q \<noteq> []"
    using that assms(1) by (cases q) (simp_all add: zero_frame_child, simp add: zero_frame_def)
qed

section \<open>The effect of an update on a table\<close>

text \<open>
  The three steps of an update, on the frames alone: writing the leaf entry, descending
  through a valid entry, and linking a fresh all-zero frame under an entry that was not
  valid.
\<close>

lemma disj_fresh:
  fixes A :: "nat set"
  assumes "A' \<subseteq> A \<union> {n..<m}" "A \<inter> B = {}" "B \<subseteq> {..<n}"
  shows "A' \<inter> B = {}" "B \<inter> A' = {}"
proof -
  have "x \<notin> B" if "x \<in> A'" for x
  proof (cases "x \<in> A")
    case True
    then show ?thesis using assms(2) by blast
  next
    case False
    then have "n \<le> x" using assms(1) that by auto
    then show ?thesis using assms(3) by auto
  qed
  then show "A' \<inter> B = {}" "B \<inter> A' = {}" by blast+
qed

lemma effectD:
  assumes "effect H H' b p v"
  shows "length H \<le> length H'"
    "x < length H \<Longrightarrow> x \<notin> foot H (length p - 1) b \<Longrightarrow> H' ! x = H ! x"
    "tree_ok H' (length p - 1) b"
    "foot H' (length p - 1) b \<subseteq> foot H (length p - 1) b \<union> {length H..<length H'}"
    "length q = length p \<Longrightarrow> \<forall>k\<in>set q. k < 1024 \<Longrightarrow>
       lookup H' q b = (if q = p then v else lookup H q b)"
    "length H' \<le> length H + (length p - 1)"
  using assms unfolding effect_def by blast+

lemma effectI:
  assumes "length H \<le> length H'"
    "\<And>x. x < length H \<Longrightarrow> x \<notin> foot H (length p - 1) b \<Longrightarrow> H' ! x = H ! x"
    "tree_ok H' (length p - 1) b"
    "foot H' (length p - 1) b \<subseteq> foot H (length p - 1) b \<union> {length H..<length H'}"
    "\<And>q. length q = length p \<Longrightarrow> \<forall>k\<in>set q. k < 1024 \<Longrightarrow>
       lookup H' q b = (if q = p then v else lookup H q b)"
    "length H' \<le> length H + (length p - 1)"
  shows "effect H H' b p v"
  unfolding effect_def using assms by blast

lemma effect_leaf:
  assumes "b < length H"
  shows "effect H (H[b := (H ! b)(l := v)]) b [l] v"
proof (rule effectI)
  fix q :: "nat list"
  assume "length q = length [l]"
  then obtain l' where q: "q = [l']" by (cases q) auto
  show "lookup (H[b := (H ! b)(l := v)]) q b = (if q = [l] then v else lookup H q b)"
    using assms by (simp add: q)
qed (use assms in simp_all)

lemma effect_refl:
  assumes "tree_ok H (length p - 1) b" "lookup H p b = v"
  shows "effect H H b p v"
  by (rule effectI) (use assms in auto)

lemma effect_descend:
  assumes ok0: "tree_ok H (Suc d) b" and k: "k < 1024" and kc: "child H b k = Some c"
    and p: "length p = Suc d" and e: "effect H H' c p v"
  shows "effect H H' b (k # p) v"
proof -
  note ok = tree_ok_SucD [OF ok0]
  note E = effectD [OF e, unfolded p diff_Suc_1]
  have c: "c \<in> kids H b" using k kc by (rule kidsI)
  have b: "H' ! b = H ! b" using E(2) ok(1) ok(3) [OF c] by simp
  have ch: "child H' b j = child H b j" for j using b by (rule child_cong)
  have ks: "kids H' b = kids H b" using b by (rule kids_cong)
  have uniq: "j = k" if "j < 1024" "child H b j = Some c" for j
  proof (rule ccontr)
    assume "j \<noteq> k"
    then have "foot H d c \<inter> foot H d c = {}" using ok(4) [OF that(1) k that(2) kc] by simp
    then show False using self_in_foot [of c H d] by blast
  qed
  have old: "foot H d c' \<subseteq> {..<length H}" if "c' \<in> kids H b" for c'
    using foot_bound [OF ok(2) [OF that]] .
  have disj: "foot H d c' \<inter> foot H d c = {}" if c': "c' \<in> kids H b" and nc: "c' \<noteq> c" for c'
  proof -
    obtain j where j: "j < 1024" "child H b j = Some c'" using kidsE [OF c'] by blast
    then have "j \<noteq> k" using kc nc by auto
    then show ?thesis using ok(4) [OF j(1) k j(2) kc] by simp
  qed
  have fr: "\<forall>x\<in>foot H d c'. H' ! x = H ! x" if "c' \<in> kids H b" "c' \<noteq> c" for c'
    using E(2) old [OF that(1)] disj [OF that] by blast
  have sib: "foot H' d c' = foot H d c' \<and> tree_ok H' d c'" if "c' \<in> kids H b" "c' \<noteq> c" for c'
    using frame_same [OF ok(2) [OF that(1)] E(1) fr [OF that]] .
  have sub: "foot H' d c' \<subseteq> foot H d c' \<union> {length H..<length H'}" if "c' \<in> kids H b" for c'
    using E(4) sib [OF that] by (cases "c' = c") auto
  show ?thesis
  proof (rule effectI)
    show "length H \<le> length H'" by (rule E(1))
  next
    show "length H' \<le> length H + (length (k # p) - 1)" using E(6) by (simp add: p)
  next
    fix x assume "x < length H" "x \<notin> foot H (length (k # p) - 1) b"
    then show "H' ! x = H ! x" using E(2) [of x] kid_foot [OF c, of d] by (auto simp: p)
  next
    have "tree_ok H' (Suc d) b"
    proof (rule tree_ok_SucI)
      show "b < length H'" using ok(1) E(1) by simp
    next
      fix c' assume "c' \<in> kids H' b"
      then have c': "c' \<in> kids H b" by (simp add: ks)
      show "tree_ok H' d c'" using E(3) sib [OF c'] by (cases "c' = c") auto
      show "b \<notin> foot H' d c'" using sub [OF c'] ok(3) [OF c'] ok(1) by auto
    next
      fix k1 k2 c1 c2
      assume a: "k1 < 1024" "k2 < 1024" "child H' b k1 = Some c1" "child H' b k2 = Some c2"
        "k1 \<noteq> k2"
      then have 1: "child H b k1 = Some c1" "child H b k2 = Some c2" by (simp_all add: ch)
      have c1: "c1 \<in> kids H b" and c2: "c2 \<in> kids H b"
        using kidsI [OF a(1) 1(1)] kidsI [OF a(2) 1(2)] by simp_all
      have d0: "foot H d c1 \<inter> foot H d c2 = {}" using ok(4) [OF a(1,2) 1 a(5)] .
      have ne: "\<not> (c1 = c \<and> c2 = c)" using uniq [OF a(1)] uniq [OF a(2)] 1 a(5) by auto
      show "foot H' d c1 \<inter> foot H' d c2 = {}"
      proof (cases "c1 = c")
        case True
        then have "c2 \<noteq> c" using ne by simp
        then have "foot H' d c2 = foot H d c2" using sib [OF c2] by simp
        then show ?thesis using disj_fresh(1) [OF sub [OF c1] d0 old [OF c2]] by simp
      next
        case False
        then have "foot H' d c1 = foot H d c1" using sib [OF c1] by simp
        moreover have "foot H d c2 \<inter> foot H d c1 = {}" using d0 by blast
        ultimately show ?thesis using disj_fresh(2) [OF sub [OF c2] _ old [OF c1]] by simp
      qed
    qed
    then show "tree_ok H' (length (k # p) - 1) b" by (simp add: p)
  next
    have "foot H' (Suc d) b \<subseteq> foot H (Suc d) b \<union> {length H..<length H'}"
      using sub by (auto simp: ks)
    then show "foot H' (length (k # p) - 1) b
       \<subseteq> foot H (length (k # p) - 1) b \<union> {length H..<length H'}" by (simp add: p)
  next
    fix q :: "nat list"
    assume lq: "length q = length (k # p)" and iq: "\<forall>k\<in>set q. k < 1024"
    then obtain j q' where q: "q = j # q'" and lq': "length q' = Suc d" by (cases q) (auto simp: p)
    have ne: "q' \<noteq> []" "p \<noteq> []" using lq' p by auto
    have qp: "q' = p \<longleftrightarrow> q = k # p" if "j = k" using that q by simp
    have j: "j < 1024" and iq': "\<forall>k\<in>set q'. k < 1024" using iq q by simp_all
    show "lookup H' q b = (if q = k # p then v else lookup H q b)"
    proof (cases "child H b j")
      case None
      then have "j \<noteq> k" using kc by auto
      then show ?thesis using None ne by (simp add: q ch)
    next
      case (Some c')
      have c': "c' \<in> kids H b" using j Some by (rule kidsI)
      show ?thesis
      proof (cases "c' = c")
        case True
        then have "j = k" using uniq [OF j] Some by simp
        then show ?thesis using E(5) [OF lq' iq'] ne kc by (simp add: q ch)
      next
        case False
        then have jk: "j \<noteq> k" using Some kc by auto
        have "lookup H' q' c' = lookup H q' c'"
        proof (rule lookup_same)
          show "tree_ok H (length q' - 1) c'" using ok(2) [OF c'] by (simp add: lq')
          show "length H \<le> length H'" by (rule E(1))
          show "\<forall>x\<in>foot H (length q' - 1) c'. H' ! x = H ! x"
            using fr [OF c' False] by (simp add: lq')
          show "\<forall>k\<in>set q'. k < 1024" by (rule iq')
        qed
        then show ?thesis using Some ne jk by (simp add: q ch)
      qed
    qed
  qed
qed

lemma effect_link:
  assumes ok0: "tree_ok H (Suc d) b" and k: "k < 1024" and kc: "child H b k = None"
    and ev: "e AND 1 \<noteq> 0" and ef: "frame_of (drop_bit 13 e) = length H"
    and p: "length p = Suc d"
    and e: "effect ((H @ [zero_frame])[b := (H ! b)(k := e)]) H' (length H) p v"
  shows "effect H H' b (k # p) v"
proof -
  define n where "n = length H"
  define H2 where "H2 = (H @ [zero_frame])[b := (H ! b)(k := e)]"
  note ok = tree_ok_SucD [OF ok0]
  have bn: "b < n" using ok(1) by (simp add: n_def)
  have l2: "length H2 = Suc n" by (simp add: H2_def n_def)
  have h2b: "H2 ! b = (H ! b)(k := e)" using bn by (simp add: H2_def n_def nth_append)
  have h2n: "H2 ! n = zero_frame" using bn by (simp add: H2_def n_def nth_append)
  have h2x: "H2 ! x = H ! x" if "x < n" "x \<noteq> b" for x
    using that by (simp add: H2_def n_def nth_append)
  have chk: "child H2 b k = Some n" using ev ef by (simp add: child_def h2b n_def)
  have chj: "child H2 b j = child H b j" if "j \<noteq> k" for j
    using that by (simp add: child_def h2b)
  have ks: "kids H2 b = insert n (kids H b)"
  proof (rule set_eqI)
    fix c
    show "c \<in> kids H2 b \<longleftrightarrow> c \<in> insert n (kids H b)"
    proof
      assume "c \<in> kids H2 b"
      then obtain j where j: "j < 1024" "child H2 b j = Some c" using kidsE by blast
      show "c \<in> insert n (kids H b)"
      proof (cases "j = k")
        case True
        then show ?thesis using j chk by simp
      next
        case False
        then show ?thesis using j chj [OF False] kidsI [of j H b c] by simp
      qed
    next
      assume "c \<in> insert n (kids H b)"
      then consider "c = n" | "c \<in> kids H b" by blast
      then show "c \<in> kids H2 b"
      proof cases
        case 1
        then show ?thesis using kidsI [OF k chk] by simp
      next
        case 2
        then obtain j where j: "j < 1024" "child H b j = Some c" using kidsE by blast
        then have "j \<noteq> k" using kc by auto
        then show ?thesis using j chj kidsI [of j H2 b c] by simp
      qed
    qed
  qed
  have old: "foot H d c \<subseteq> {..<n}" if "c \<in> kids H b" for c
    using foot_bound [OF ok(2) [OF that]] by (simp add: n_def)
  have fr: "\<forall>x\<in>foot H d c. H2 ! x = H ! x" if "c \<in> kids H b" for c
  proof
    fix x assume x: "x \<in> foot H d c"
    then have "x < n" using old [OF that] by auto
    moreover have "x \<noteq> b" using ok(3) [OF that] x by auto
    ultimately show "H2 ! x = H ! x" by (rule h2x)
  qed
  have len: "length H \<le> length H2" by (simp add: l2 n_def)
  have sib: "foot H2 d c = foot H d c \<and> tree_ok H2 d c" if "c \<in> kids H b" for c
    using frame_same [OF ok(2) [OF that] len fr [OF that]] .
  have zt: "tree_ok H2 d n" and zf: "foot H2 d n = {n}"
    using zero_frame_tree(1,2) [OF h2n] l2 by simp_all
  have ft: "foot H2 (Suc d) b = insert n (foot H (Suc d) b)"
  proof -
    have "(\<Union>c\<in>kids H b. foot H2 d c) = (\<Union>c\<in>kids H b. foot H d c)"
      by (rule SUP_cong [OF refl]) (simp add: sib)
    then show ?thesis by (simp add: ks zf insert_commute)
  qed
  have ok2: "tree_ok H2 (Suc d) b"
  proof (rule tree_ok_SucI)
    show "b < length H2" using bn by (simp add: l2)
  next
    fix c assume "c \<in> kids H2 b"
    then consider "c = n" | "c \<in> kids H b" by (auto simp: ks)
    then show "tree_ok H2 d c"
    proof cases
      case 1
      then show ?thesis using zt by simp
    next
      case 2
      then show ?thesis using sib by simp
    qed
  next
    fix c assume "c \<in> kids H2 b"
    then consider "c = n" | "c \<in> kids H b" by (auto simp: ks)
    then show "b \<notin> foot H2 d c"
    proof cases
      case 1
      then show ?thesis using zf bn by simp
    next
      case 2
      then show ?thesis using sib [OF 2] ok(3) [OF 2] by simp
    qed
  next
    fix k1 k2 c1 c2
    assume a: "k1 < 1024" "k2 < 1024" "child H2 b k1 = Some c1" "child H2 b k2 = Some c2"
      "k1 \<noteq> k2"
    have one: "foot H2 d n \<inter> foot H2 d c = {} \<and> foot H2 d c \<inter> foot H2 d n = {}"
      if "j < 1024" "j \<noteq> k" "child H2 b j = Some c" for j c
    proof -
      have "c \<in> kids H b" using that chj [OF that(2)] kidsI [of j H b c] by simp
      then show ?thesis using sib old zf by fastforce
    qed
    show "foot H2 d c1 \<inter> foot H2 d c2 = {}"
    proof (cases "k1 = k")
      case True
      then have "c1 = n" "k2 \<noteq> k" using a chk by auto
      then show ?thesis using one [OF a(2) _ a(4)] by simp
    next
      case k1: False
      show ?thesis
      proof (cases "k2 = k")
        case True
        then have "c2 = n" using a chk by auto
        then show ?thesis using one [OF a(1) k1 a(3)] by simp
      next
        case False
        have 1: "child H b k1 = Some c1" "child H b k2 = Some c2"
          using a chj [OF k1] chj [OF False] by simp_all
        have "foot H d c1 \<inter> foot H d c2 = {}" using ok(4) [OF a(1,2) 1 a(5)] .
        then show ?thesis
          using sib [OF kidsI [OF a(1) 1(1)]] sib [OF kidsI [OF a(2) 1(2)]] by simp
      qed
    qed
  qed
  have e2: "effect H2 H' n p v" using e by (simp add: H2_def n_def)
  note E = effectD [OF effect_descend [OF ok2 k chk p e2], simplified, unfolded p]
  have lk: "lookup H2 q b = lookup H q b"
    if lq: "length q = Suc (Suc d)" and iq: "\<forall>k\<in>set q. k < 1024" for q
  proof -
    obtain j q' where q: "q = j # q'" and lq': "length q' = Suc d" using lq by (cases q) auto
    have ne: "q' \<noteq> []" using lq' by auto
    have j: "j < 1024" and iq': "\<forall>k\<in>set q'. k < 1024" using iq q by simp_all
    show ?thesis
    proof (cases "j = k")
      case True
      then show ?thesis using ne kc chk zero_frame_tree(3) [OF h2n _ ne] l2 by (simp add: q)
    next
      case False
      show ?thesis
      proof (cases "child H b j")
        case None
        then show ?thesis using ne chj [OF False] by (simp add: q)
      next
        case (Some c)
        have c: "c \<in> kids H b" using j Some by (rule kidsI)
        have "lookup H2 q' c = lookup H q' c"
        proof (rule lookup_same)
          show "tree_ok H (length q' - 1) c" using ok(2) [OF c] by (simp add: lq')
          show "length H \<le> length H2" by (rule len)
          show "\<forall>x\<in>foot H (length q' - 1) c. H2 ! x = H ! x" using fr [OF c] by (simp add: lq')
          show "\<forall>k\<in>set q'. k < 1024" by (rule iq')
        qed
        then show ?thesis using ne chj [OF False] Some by (simp add: q)
      qed
    qed
  qed
  show ?thesis
  proof (rule effectI)
    show "length H \<le> length H'" using E(1) len by simp
  next
    show "length H' \<le> length H + (length (k # p) - 1)"
      using effectD(6) [OF e2] by (simp add: p l2 n_def)
  next
    fix x assume x: "x < length H" "x \<notin> foot H (length (k # p) - 1) b"
    then have "x \<noteq> b" using self_in_foot [of b H] by (auto simp: p)
    then have 1: "H2 ! x = H ! x" using x(1) h2x by (simp add: n_def)
    have "x \<notin> foot H2 (Suc d) b" unfolding ft using x by (simp add: p n_def del: foot.simps)
    then have "H' ! x = H2 ! x" using E(2) [of x] x(1) by (simp add: l2 n_def)
    then show "H' ! x = H ! x" using 1 by simp
  next
    show "tree_ok H' (length (k # p) - 1) b" using E(3) by (simp add: p)
  next
    have "foot H' (Suc d) b \<subseteq> foot H2 (Suc d) b \<union> {length H2..<length H'}" by (rule E(4))
    also have "\<dots> \<subseteq> foot H (Suc d) b \<union> {length H..<length H'}"
      unfolding ft using E(1) by (auto simp: l2 n_def simp del: foot.simps)
    finally show "foot H' (length (k # p) - 1) b
        \<subseteq> foot H (length (k # p) - 1) b \<union> {length H..<length H'}"
      by (simp add: p)
  next
    fix q :: "nat list"
    assume lq: "length q = length (k # p)" and iq: "\<forall>k\<in>set q. k < 1024"
    have lq2: "length q = Suc (Suc d)" using lq p by simp
    show "lookup H' q b = (if q = k # p then v else lookup H q b)"
      using E(5) [OF lq2 iq] lk [OF lq2 iq] by simp
  qed
qed

section \<open>The walks of the source and the recursion over all indices\<close>

text \<open>
  \<open>page_table_update\<close> and \<open>page_table_query\<close> are \<open>update_from\<close> and
  \<open>query_from\<close> on the five indices of \<open>split_vpn\<close>.
\<close>

lemma update_from_walk:
  "update_from nm ppn (is @ [l]) t s =
     (case update_walk nm ppn is t s of
        Inl e \<Rightarrow> Inl e
      | Inr (None, s') \<Rightarrow> Inr s'
      | Inr (Some t', s') \<Rightarrow>
          if ppn = nm then store64 s' t' l 0 else store64 s' t' l (push_bit 13 ppn OR 1))"
proof (induction "is" arbitrary: t s)
  case Nil
  show ?case by simp
next
  case (Cons i "is")
  show ?case
  proof (cases "load64 s t i")
    case (Inl e)
    then show ?thesis by simp
  next
    case (Inr entry)
    show ?thesis
    proof (cases "entry AND 1 = 0")
      case False
      then show ?thesis using Inr by (simp add: Cons.IH)
    next
      case inv: True
      show ?thesis
      proof (cases "ppn = nm")
        case True
        then show ?thesis using Inr inv by simp
      next
        case ne: False
        show ?thesis
        proof (cases "alloc_page_frame s")
          case (Inl e)
          then show ?thesis using Inr inv ne by simp
        next
          case a: (Inr x)
          obtain new_pt s1 where x: "x = (new_pt, s1)" by (cases x)
          show ?thesis
          proof (cases "store64 s1 t i (push_bit 13 new_pt OR 1)")
            case (Inl e)
            then show ?thesis using Inr inv ne a x by simp
          next
            case st: (Inr s2)
            then show ?thesis using Inr inv ne a x by (simp add: Cons.IH)
          qed
        qed
      qed
    qed
  qed
qed

lemma query_from_walk:
  "query_from nm (is @ [l]) t s =
     (case query_walk is t s of
        Inl e \<Rightarrow> Inl e
      | Inr None \<Rightarrow> Inr nm
      | Inr (Some t') \<Rightarrow>
          (case load64 s t' l of
             Inl e \<Rightarrow> Inl e
           | Inr final_entry \<Rightarrow>
               if final_entry AND 1 = 0 then Inr nm else Inr (drop_bit 13 final_entry)))"
proof (induction "is" arbitrary: t s)
  case Nil
  show ?case by (cases "load64 s t l") simp_all
next
  case (Cons i "is")
  show ?case
  proof (cases "load64 s t i")
    case (Inl e)
    then show ?thesis by simp
  next
    case (Inr entry)
    then show ?thesis by (simp add: Cons.IH)
  qed
qed

lemma split_vpn_snoc: "take 4 (split_vpn vpn) @ [split_vpn vpn ! 4] = split_vpn vpn"
  by (simp add: split_vpn_list)

lemma levels_minus_1: "PAGE_TABLE_LEVELS - 1 = 4"
  by (simp add: PAGE_TABLE_LEVELS_def)

lemma page_table_update_from:
  "page_table_update s nm pt vpn ppn =
     update_from nm ppn (split_vpn vpn) (phys_to_virt s (push_bit 13 pt)) s"
  unfolding page_table_update_def levels_minus_1 Let_def
    update_from_walk [of nm ppn "take 4 (split_vpn vpn)" "split_vpn vpn ! 4", unfolded split_vpn_snoc]
  by (rule refl)

lemma page_table_query_from:
  "page_table_query s nm pt vpn =
     query_from nm (split_vpn vpn) (phys_to_virt s (push_bit 13 pt)) s"
  unfolding page_table_query_def levels_minus_1 Let_def
    query_from_walk [of nm "take 4 (split_vpn vpn)" "split_vpn vpn ! 4", unfolded split_vpn_snoc]
  by (rule refl)

lemma split_vpn_small: "\<forall>i\<in>set (split_vpn vpn). unat i < 1024"
proof -
  have "unat (x AND 0x3ff) < 1024" for x :: u64
  proof -
    have "x AND 0x3ff \<le> 0x3ff" by (rule word_and_le1)
    then show ?thesis by (simp add: word_le_nat_alt)
  qed
  then show ?thesis by (simp add: split_vpn_list)
qed

lemma split_vpn_length: "length (split_vpn vpn) = 5" "split_vpn vpn \<noteq> []"
  by (simp_all add: split_vpn_list)

section \<open>Update and query on a well-formed table\<close>

text \<open>
  On a table that is a tree, an update that returns has the effect described by
  \<open>effect\<close>, a query decodes the leaf entry that \<open>lookup\<close> finds, and an update
  returns whenever it needs no new frame or the frames it may need are available. A root
  just allocated is the root of a page table, and it remains one under updates on it and
  under further allocations.
\<close>

lemma reg_ok_heap:
  "reg_ok s \<Longrightarrow> length H = length (heap s) \<Longrightarrow> reg_ok (s\<lparr>heap := H\<rparr>)"
  by (simp add: reg_ok_def)

lemma pte_frame:
  assumes "n < NPAGES"
  shows "(push_bit 13 (of_nat n + BIAS) OR 1 :: u64) AND 1 \<noteq> 0"
    "frame_of (drop_bit 13 (push_bit 13 (of_nat n + BIAS) OR 1)) = n"
  unfolding drop_push_or_13 pte_valid_bit small_frame(3) [OF assms] using small_frame(4) [OF assms] by simp_all

lemma child_entry:
  "child H b k = (if (H ! b) k AND 1 = 0 then None else Some (frame_of (drop_bit 13 ((H ! b) k))))"
  by (simp add: child_def)

lemma phys_to_virt_child:
  assumes "reg_ok s" "frame_of (drop_bit 13 e) < length (heap s)"
  shows "phys_to_virt s (push_bit 13 (drop_bit 13 e)) = Ptr (Some (frame_of (drop_bit 13 e))) 0"
  using assms by (intro phys_to_virt_frame) (simp_all add: take_drop_13 reg_ok_def)

lemma update_from_effect:
  assumes "p \<noteq> []" "\<forall>i\<in>set p. unat i < 1024" "reg_ok s"
    "tree_ok (heap s) (length p - 1) b"
    "update_from nm ppn p (Ptr (Some b) 0) s = Inr s'"
  shows "reg_ok s' \<and> vm_limit s' = vm_limit s \<and>
     effect (heap s) (heap s') b (map unat p) (leaf_val nm ppn)"
  using assms
proof (induction p arbitrary: s b s')
  case Nil
  then show ?case by simp
next
  case (Cons i "is")
  let ?H = "heap s"
  have i: "unat i < 1024" using Cons.prems(2) by simp
  have b: "b < length ?H" using Cons.prems(4) by (rule tree_ok_less)
  note ld = load64_frame [OF b i]
  show ?case
  proof (cases "is = []")
    case True
    have s': "s' = s\<lparr>heap := ?H[b := (?H ! b)(unat i := leaf_val nm ppn)]\<rparr>"
      using Cons.prems(5) True store64_frame [OF b i] by (auto simp: leaf_val_def split: if_splits)
    have "reg_ok s'" unfolding s' using Cons.prems(3) by (rule reg_ok_heap) simp
    moreover have "effect ?H (heap s') b (map unat (i # is)) (leaf_val nm ppn)"
      using effect_leaf [OF b] by (simp add: s' True)
    ultimately show ?thesis by (simp add: s')
  next
    case False
    then obtain d where d: "length is = Suc d" by (cases "is") auto
    have ok: "tree_ok ?H (Suc d) b" using Cons.prems(4) by (simp add: d)
    have is_small: "\<forall>i\<in>set is. unat i < 1024" using Cons.prems(2) by simp
    have lm: "length (map unat is) = Suc d" by (simp add: d)
    define entry where "entry = (?H ! b) (unat i)"
    show ?thesis
    proof (cases "entry AND 1 = 0")
      case valid: False
      define c where "c = frame_of (drop_bit 13 entry)"
      have ch: "child ?H b (unat i) = Some c" using valid by (simp add: child_entry entry_def c_def)
      have ck: "c \<in> kids ?H b" using i ch by (rule kidsI)
      have okc: "tree_ok ?H (length is - 1) c" using tree_ok_SucD(2) [OF ok ck] by (simp add: d)
      have "c < length ?H" using okc by (rule tree_ok_less)
      then have pv: "phys_to_virt s (push_bit 13 (drop_bit 13 entry)) = Ptr (Some c) 0"
        unfolding c_def by (intro phys_to_virt_child Cons.prems(3))
      have "update_from nm ppn is (Ptr (Some c) 0) s = Inr s'"
        using Cons.prems(5) False valid ld by (simp add: entry_def [symmetric] pv)
      note IH = Cons.IH [OF False is_small Cons.prems(3) okc this]
      have "effect ?H (heap s') b (unat i # map unat is) (leaf_val nm ppn)"
        using ok i ch lm by (rule effect_descend) (use IH in simp)
      then show ?thesis using IH by simp
    next
      case inv: True
      have ch: "child ?H b (unat i) = None" using inv by (simp add: child_entry entry_def)
      show ?thesis
      proof (cases "ppn = nm")
        case True
        then have s': "s' = s" using Cons.prems(5) False inv ld by (simp add: entry_def [symmetric])
        have "lookup ?H (map unat (i # is)) b = leaf_val nm ppn"
          using False ch True by (simp add: leaf_val_def)
        then have "effect ?H ?H b (map unat (i # is)) (leaf_val nm ppn)"
          using Cons.prems(4) by (intro effect_refl) simp_all
        then show ?thesis using Cons.prems(3) by (simp add: s')
      next
        case ne: False
        define n where "n = length ?H"
        define pte :: u64 where "pte = push_bit 13 (of_nat n + BIAS) OR 1"
        define H2 where "H2 = (?H @ [zero_frame])[b := (?H ! b)(unat i := pte)]"
        from Cons.prems(5) False inv ne ld obtain new_pt s1 s2 where
          al: "alloc_page_frame s = Inr (new_pt, s1)" and
          st: "store64 s1 (Ptr (Some b) 0) i (push_bit 13 new_pt OR 1) = Inr s2" and
          up: "update_from nm ppn is (phys_to_virt s2 (push_bit 13 new_pt)) s2 = Inr s'"
          by (auto simp: entry_def [symmetric] split: sum.splits)
        note A = alloc_page_frame_reg_ok [OF Cons.prems(3) al]
        have np: "n < NPAGES" using A(5) by (simp add: n_def)
        have new_pt: "new_pt = of_nat n + BIAS" using A(4) by (simp add: n_def)
        have b1: "b < length (heap s1)" using b by (simp add: A(2))
        have s2: "s2 = s1\<lparr>heap := H2\<rparr>"
          using st store64_frame [OF b1 i] b
          by (simp add: H2_def A(2) new_pt pte_def nth_append)
        have r2: "reg_ok s2" unfolding s2 using A(1) by (rule reg_ok_heap) (simp add: H2_def A(2))
        have l2: "length (heap s2) = Suc n" by (simp add: s2 H2_def n_def)
        have h2n: "heap s2 ! n = zero_frame" using b by (simp add: s2 H2_def n_def nth_append)
        have pv: "phys_to_virt s2 (push_bit 13 new_pt) = Ptr (Some n) 0"
          using phys_to_virt_frame [OF r2, of new_pt] small_frame(3,4) [OF np] r2 l2
          by (simp add: new_pt reg_ok_def)
        have okn: "tree_ok (heap s2) (length is - 1) n"
          using h2n by (rule zero_frame_tree(1)) (simp add: l2)
        have "update_from nm ppn is (Ptr (Some n) 0) s2 = Inr s'" using up by (simp add: pv)
        note IH = Cons.IH [OF False is_small r2 okn this]
        have "effect H2 (heap s') n (map unat is) (leaf_val nm ppn)" using IH by (simp add: s2)
        then have "effect ?H (heap s') b (unat i # map unat is) (leaf_val nm ppn)"
          using pte_frame [OF np]
          by (intro effect_link [OF ok i ch _ _ lm, of pte])
            (simp_all add: pte_def H2_def n_def)
        moreover have "vm_limit s' = vm_limit s" using IH A(3) by (simp add: s2)
        ultimately show ?thesis using IH by simp
      qed
    qed
  qed
qed

lemma decode_leaf_val: "decode nm (leaf_val nm ppn) = (if ppn = nm then nm else take_bit 51 ppn)"
  unfolding decode_def leaf_val_def using drop_push_or_13 [of ppn] pte_valid_bit [of ppn] by simp

lemma query_from_lookup:
  assumes "p \<noteq> []" "\<forall>i\<in>set p. unat i < 1024" "reg_ok s" "tree_ok (heap s) (length p - 1) b"
  shows "query_from nm p (Ptr (Some b) 0) s = Inr (decode nm (lookup (heap s) (map unat p) b))"
  using assms
proof (induction p arbitrary: b)
  case Nil
  then show ?case by simp
next
  case (Cons i "is")
  let ?H = "heap s"
  have i: "unat i < 1024" using Cons.prems(2) by simp
  have b: "b < length ?H" using Cons.prems(4) by (rule tree_ok_less)
  note ld = load64_frame [OF b i]
  define entry where "entry = (?H ! b) (unat i)"
  show ?case
  proof (cases "is = []")
    case True
    then show ?thesis using ld by (simp add: decode_def)
  next
    case False
    then obtain d where d: "length is = Suc d" by (cases "is") auto
    have ok: "tree_ok ?H (Suc d) b" using Cons.prems(4) by (simp add: d)
    have is_small: "\<forall>i\<in>set is. unat i < 1024" using Cons.prems(2) by simp
    show ?thesis
    proof (cases "entry AND 1 = 0")
      case True
      then have "child ?H b (unat i) = None" by (simp add: child_entry entry_def)
      then show ?thesis using True False ld by (simp add: entry_def [symmetric] decode_def)
    next
      case valid: False
      define c where "c = frame_of (drop_bit 13 entry)"
      have ch: "child ?H b (unat i) = Some c" using valid by (simp add: child_entry entry_def c_def)
      have ck: "c \<in> kids ?H b" using i ch by (rule kidsI)
      have okc: "tree_ok ?H (length is - 1) c" using tree_ok_SucD(2) [OF ok ck] by (simp add: d)
      have "c < length ?H" using okc by (rule tree_ok_less)
      then have pv: "phys_to_virt s (push_bit 13 (drop_bit 13 entry)) = Ptr (Some c) 0"
        unfolding c_def by (intro phys_to_virt_child Cons.prems(3))
      note IH = Cons.IH [OF False is_small Cons.prems(3) okc]
      show ?thesis using valid False ld ch IH by (simp add: entry_def [symmetric] pv)
    qed
  qed
qed

lemma alloc_page_frame_ok:
  assumes "reg_ok s" "length (heap s) < NPAGES" "length (heap s) < vm_limit s"
  shows "\<exists>p s'. alloc_page_frame s = Inr (p, s')"
proof -
  have "unat (nalloc s) < NPAGES" using assms(1,2) by (simp add: reg_ok_def)
  moreover from this have "nalloc s \<noteq> of_nat NPAGES" using unat_NPAGES by auto
  ultimately show ?thesis
    using assms(3) by (simp add: alloc_page_frame_def mmap_anon_def Let_def)
qed

lemma update_from_total:
  assumes "p \<noteq> []" "\<forall>i\<in>set p. unat i < 1024" "reg_ok s"
    "tree_ok (heap s) (length p - 1) b"
    "ppn = nm \<or> lookup (heap s) (map unat p) b \<noteq> 0 \<or>
       (length (heap s) + (length p - 1) \<le> NPAGES \<and>
        length (heap s) + (length p - 1) \<le> vm_limit s)"
  shows "\<exists>s'. update_from nm ppn p (Ptr (Some b) 0) s = Inr s'"
  using assms
proof (induction p arbitrary: s b)
  case Nil
  then show ?case by simp
next
  case (Cons i "is")
  let ?H = "heap s"
  have i: "unat i < 1024" using Cons.prems(2) by simp
  have b: "b < length ?H" using Cons.prems(4) by (rule tree_ok_less)
  note ld = load64_frame [OF b i]
  show ?case
  proof (cases "is = []")
    case True
    then show ?thesis using store64_frame [OF b i] by simp
  next
    case False
    then obtain d where d: "length is = Suc d" by (cases "is") auto
    have ok: "tree_ok ?H (Suc d) b" using Cons.prems(4) by (simp add: d)
    have is_small: "\<forall>i\<in>set is. unat i < 1024" using Cons.prems(2) by simp
    define entry where "entry = (?H ! b) (unat i)"
    show ?thesis
    proof (cases "entry AND 1 = 0")
      case valid: False
      define c where "c = frame_of (drop_bit 13 entry)"
      have ch: "child ?H b (unat i) = Some c" using valid by (simp add: child_entry entry_def c_def)
      have ck: "c \<in> kids ?H b" using i ch by (rule kidsI)
      have okc: "tree_ok ?H (length is - 1) c" using tree_ok_SucD(2) [OF ok ck] by (simp add: d)
      have "c < length ?H" using okc by (rule tree_ok_less)
      then have pv: "phys_to_virt s (push_bit 13 (drop_bit 13 entry)) = Ptr (Some c) 0"
        unfolding c_def by (intro phys_to_virt_child Cons.prems(3))
      have cap: "ppn = nm \<or> lookup ?H (map unat is) c \<noteq> 0 \<or>
          (length ?H + (length is - 1) \<le> NPAGES \<and> length ?H + (length is - 1) \<le> vm_limit s)"
        using Cons.prems(5) False ch by auto
      show ?thesis
        using Cons.IH [OF False is_small Cons.prems(3) okc cap] valid False ld
        by (simp add: entry_def [symmetric] pv)
    next
      case inv: True
      have ch: "child ?H b (unat i) = None" using inv by (simp add: child_entry entry_def)
      show ?thesis
      proof (cases "ppn = nm")
        case True
        then show ?thesis using False inv ld by (simp add: entry_def [symmetric])
      next
        case ne: False
        then have cap: "length ?H + Suc d \<le> NPAGES" "length ?H + Suc d \<le> vm_limit s"
          using Cons.prems(5) False ch by (simp_all add: d)
        define n where "n = length ?H"
        obtain new_pt s1 where al: "alloc_page_frame s = Inr (new_pt, s1)"
          using alloc_page_frame_ok [OF Cons.prems(3)] cap by auto
        note A = alloc_page_frame_reg_ok [OF Cons.prems(3) al]
        have np: "n < NPAGES" using A(5) by (simp add: n_def)
        have new_pt: "new_pt = of_nat n + BIAS" using A(4) by (simp add: n_def)
        have b1: "b < length (heap s1)" using b by (simp add: A(2))
        define s2 where "s2 = s1\<lparr>heap := (heap s1)[b := (heap s1 ! b)(unat i := push_bit 13 new_pt OR 1)]\<rparr>"
        have st: "store64 s1 (Ptr (Some b) 0) i (push_bit 13 new_pt OR 1) = Inr s2"
          using store64_frame [OF b1 i] by (simp add: s2_def)
        have r2: "reg_ok s2" unfolding s2_def using A(1) by (rule reg_ok_heap) simp
        have l2: "length (heap s2) = Suc n" by (simp add: s2_def A(2) n_def)
        have h2n: "heap s2 ! n = zero_frame" using b by (simp add: s2_def A(2) n_def nth_append)
        have pv: "phys_to_virt s2 (push_bit 13 new_pt) = Ptr (Some n) 0"
          using phys_to_virt_frame [OF r2, of new_pt] small_frame(3,4) [OF np] r2 l2
          by (simp add: new_pt reg_ok_def)
        have okn: "tree_ok (heap s2) (length is - 1) n"
          using h2n by (rule zero_frame_tree(1)) (simp add: l2)
        have cap2: "ppn = nm \<or> lookup (heap s2) (map unat is) n \<noteq> 0 \<or>
          (length (heap s2) + (length is - 1) \<le> NPAGES \<and>
           length (heap s2) + (length is - 1) \<le> vm_limit s2)"
        proof -
          have "vm_limit s2 = vm_limit s" using A(3) by (simp add: s2_def)
          then show ?thesis using cap by (simp add: l2 d n_def)
        qed
        show ?thesis
          using Cons.IH [OF False is_small r2 okn cap2] False inv ne ld al st
          by (simp add: entry_def [symmetric] pv)
      qed
    qed
  qed
qed

lemma frame_small_take_bit:
  assumes "frame_of x < NPAGES"
  shows "take_bit 51 x = x"
proof -
  have "of_nat (frame_of x) + BIAS = x" by (simp add: frame_of_def)
  then show ?thesis using small_frame(3) [OF assms] by simp
qed

lemma root_ptr:
  assumes "table_root s pt"
  shows "phys_to_virt s (push_bit 13 pt) = Ptr (Some (frame_of pt)) 0"
proof -
  have r: "reg_ok s" and "frame_of pt < length (heap s)"
    using assms tree_ok_less by (auto simp: table_root_def)
  then have lt: "frame_of pt < unat (nalloc s)" "frame_of pt < NPAGES" by (simp_all add: reg_ok_def)
  show ?thesis using r frame_small_take_bit [OF lt(2)] lt(1) by (rule phys_to_virt_frame)
qed

lemma reg_ok_init: "reg_ok (init_state lim)"
  by (simp add: reg_ok_def init_state_def)

lemma fresh_root:
  assumes "reg_ok s" "alloc_page_frame s = Inr (pt, s')"
  shows "table_root s' pt"
proof -
  note A = alloc_page_frame_reg_ok [OF assms]
  have "frame_of pt = length (heap s)" using small_frame(4) [OF A(5)] by (simp add: A(4))
  moreover have "tree_ok (heap s') 4 (length (heap s))"
    by (rule zero_frame_tree(1)) (simp_all add: A(2))
  ultimately show ?thesis using A(1) by (simp add: table_root_def)
qed

lemma table_root_alloc:
  assumes "table_root s pt" "alloc_page_frame s = Inr (x, s')"
  shows "table_root s' pt"
proof -
  have r: "reg_ok s" and t: "tree_ok (heap s) 4 (frame_of pt)"
    using assms(1) by (simp_all add: table_root_def)
  note A = alloc_page_frame_reg_ok [OF r assms(2)]
  have "\<forall>y\<in>foot (heap s) 4 (frame_of pt). heap s' ! y = heap s ! y"
    using foot_bound [OF t] by (auto simp: A(2) nth_append)
  then have "tree_ok (heap s') 4 (frame_of pt)"
    using frame_same [OF t, of "heap s'"] by (simp add: A(2))
  then show ?thesis using A(1) by (simp add: table_root_def)
qed

lemma split_vpn_unat: "map unat (split_vpn v') = map unat (split_vpn v) \<longleftrightarrow> split_vpn v' = split_vpn v"
  by (rule inj_map_eq_map) (simp add: inj_on_def word_unat_eq_iff)

lemma update_root:
  assumes "table_root s pt" "page_table_update s nm pt v p = Inr s'"
  shows "table_root s' pt" "vm_limit s' = vm_limit s"
    "page_table_query s' nm pt v' =
       (if split_vpn v' = split_vpn v then Inr (if p = nm then nm else take_bit 51 p)
        else page_table_query s nm pt v')"
proof -
  let ?b = "frame_of pt"
  have r: "reg_ok s" and t: "tree_ok (heap s) (length (split_vpn v) - 1) ?b"
    using assms(1) by (simp_all add: table_root_def split_vpn_length)
  have u: "update_from nm p (split_vpn v) (Ptr (Some ?b) 0) s = Inr s'"
    using assms(2) by (simp add: page_table_update_from root_ptr [OF assms(1)])
  note U = update_from_effect [OF split_vpn_length(2) split_vpn_small r t u]
  note E = effectD [OF U [THEN conjunct2, THEN conjunct2], simplified split_vpn_length length_map, simplified]
  show tr: "table_root s' pt" using U E(3) by (simp add: table_root_def)
  show "vm_limit s' = vm_limit s" using U by simp
  have q: "page_table_query s nm pt v' = Inr (decode nm (lookup (heap s) (map unat (split_vpn v')) ?b))"
    unfolding page_table_query_from root_ptr [OF assms(1)]
    using split_vpn_length(2) split_vpn_small r
    by (rule query_from_lookup) (use t in \<open>simp add: split_vpn_length\<close>)
  have q': "page_table_query s' nm pt v' = Inr (decode nm (lookup (heap s') (map unat (split_vpn v')) ?b))"
    unfolding page_table_query_from root_ptr [OF tr]
    using split_vpn_length(2) split_vpn_small
    by (rule query_from_lookup) (use tr in \<open>simp_all add: split_vpn_length table_root_def\<close>)
  have "lookup (heap s') (map unat (split_vpn v')) ?b =
      (if map unat (split_vpn v') = map unat (split_vpn v) then leaf_val nm p
       else lookup (heap s) (map unat (split_vpn v')) ?b)"
    using split_vpn_small [of v'] by (intro E(5)) (simp_all add: split_vpn_length)
  then show "page_table_query s' nm pt v' =
       (if split_vpn v' = split_vpn v then Inr (if p = nm then nm else take_bit 51 p)
        else page_table_query s nm pt v')"
    unfolding q q' split_vpn_unat by (simp add: decode_leaf_val)
qed

lemma split_vpn_take_bit:
  assumes "split_vpn v1 = split_vpn v2"
  shows "take_bit 50 v1 = take_bit 50 v2"
proof -
  have f: "bit v1 (k + m) = bit v2 (k + m)"
    if "drop_bit k v1 AND mask 10 = drop_bit k v2 AND mask 10" "m < 10" for k m
  proof -
    have "bit (drop_bit k v1 AND mask 10) m = bit (drop_bit k v2 AND mask 10) m"
      using that(1) by simp
    then show ?thesis using that(2) by (simp add: bit_simps ac_simps)
  qed
  have e: "drop_bit 40 v1 AND mask 10 = drop_bit 40 v2 AND mask 10"
    "drop_bit 30 v1 AND mask 10 = drop_bit 30 v2 AND mask 10"
    "drop_bit 20 v1 AND mask 10 = drop_bit 20 v2 AND mask 10"
    "drop_bit 10 v1 AND mask 10 = drop_bit 10 v2 AND mask 10"
    "drop_bit 0 v1 AND mask 10 = drop_bit 0 v2 AND mask 10"
    using assms unfolding split_vpn_list level_mask_eq by simp_all
  have "bit v1 n = bit v2 n" if n50: "n < 50" for n
  proof -
    consider "n < 10" | "10 \<le> n" "n < 20" | "20 \<le> n" "n < 30" | "30 \<le> n" "n < 40"
      | "40 \<le> n" "n < 50" using n50 by linarith
    then show ?thesis
    proof cases
      case 1
      then show ?thesis using f [OF e(5), of n] by simp
    next
      case 2
      then show ?thesis using f [OF e(4), of "n - 10"] by simp
    next
      case 3
      then show ?thesis using f [OF e(3), of "n - 20"] by simp
    next
      case 4
      then show ?thesis using f [OF e(2), of "n - 30"] by simp
    next
      case 5
      then show ?thesis using f [OF e(1), of "n - 40"] by simp
    qed
  qed
  then show ?thesis by (intro bit_eqI) (auto simp: bit_simps)
qed

lemma walk_none_update:
  "query_walk is t s = Inr None \<Longrightarrow> update_walk nm nm is t s = Inr (None, s)"
proof (induction "is" arbitrary: t)
  case Nil
  then show ?case by simp
next
  case (Cons i "is")
  show ?case
  proof (cases "load64 s t i")
    case (Inl e)
    then show ?thesis using Cons.prems by simp
  next
    case (Inr entry)
    then show ?thesis using Cons.prems Cons.IH by (cases "entry AND 1 = 0") simp_all
  qed
qed

lemma fresh_frame:
  assumes "alloc_page_frame s = Inr (pt, s')"
  shows "phys_to_virt s' (push_bit 13 pt) = Ptr (Some (length (heap s))) 0"
    "heap s' ! length (heap s) = zero_frame" "length (heap s) < length (heap s')"
proof -
  note A = alloc_page_frame_Inr [OF assms]
  have n: "of_nat (unat (nalloc s)) = nalloc s" by simp
  note S = small_frame [OF A(1), unfolded n]
  have "nalloc s < of_nat NPAGES" using A(1) by (simp add: word_less_nat_alt unat_NPAGES)
  then show "phys_to_virt s' (push_bit 13 pt) = Ptr (Some (length (heap s))) 0"
    using S(3) by (simp add: phys_to_virt_def drop_push_13 push_low_bits A(3,4) ptr_add_def)
  show "heap s' ! length (heap s) = zero_frame" "length (heap s) < length (heap s')"
    by (simp_all add: A(4))
qed

lemma fresh_walk:
  assumes "alloc_page_frame s = Inr (pt, s')" "is \<noteq> []" "\<forall>i\<in>set is. unat i < 1024"
  shows "query_walk is (phys_to_virt s' (push_bit 13 pt)) s' = Inr None"
proof -
  obtain i js where i: "is = i # js" using assms(2) by (cases "is") auto
  note F = fresh_frame [OF assms(1)]
  have "load64 s' (Ptr (Some (length (heap s))) 0) i = Inr 0"
    using load64_frame [OF F(3), of i] assms(3) F(2) by (simp add: i zero_frame_def)
  then show ?thesis by (simp add: i F(1))
qed

lemma update_root_leaf:
  assumes "table_root s pt" "page_table_update s nm pt v p = Inr s'"
  shows "lookup (heap s') (map unat (split_vpn v)) (frame_of pt) = leaf_val nm p"
proof -
  let ?b = "frame_of pt"
  have r: "reg_ok s" and t: "tree_ok (heap s) (length (split_vpn v) - 1) ?b"
    using assms(1) by (simp_all add: table_root_def split_vpn_length)
  have u: "update_from nm p (split_vpn v) (Ptr (Some ?b) 0) s = Inr s'"
    using assms(2) by (simp add: page_table_update_from root_ptr [OF assms(1)])
  note U = update_from_effect [OF split_vpn_length(2) split_vpn_small r t u]
  note E = effectD(5) [OF U [THEN conjunct2, THEN conjunct2], of "map unat (split_vpn v)"]
  show ?thesis using E split_vpn_small [of v] by simp
qed

lemma leaf_val_nonzero:
  assumes "ppn \<noteq> nm"
  shows "leaf_val nm ppn \<noteq> 0"
proof
  assume "leaf_val nm ppn = 0"
  then have "push_bit 13 ppn OR 1 = 0" using assms by (simp add: leaf_val_def)
  then have "(push_bit 13 ppn OR 1) AND 1 = (0::u64) AND 1" by (rule arg_cong)
  then show False unfolding pte_valid_bit by simp
qed

lemma page_table_update_total:
  assumes "table_root s pt"
    "ppn = nm \<or> lookup (heap s) (map unat (split_vpn v)) (frame_of pt) \<noteq> 0 \<or>
       (length (heap s) + 4 \<le> NPAGES \<and> length (heap s) + 4 \<le> vm_limit s)"
  shows "\<exists>s'. page_table_update s nm pt v ppn = Inr s'"
proof -
  have r: "reg_ok s" and t: "tree_ok (heap s) (length (split_vpn v) - 1) (frame_of pt)"
    using assms(1) by (simp_all add: table_root_def split_vpn_length)
  show ?thesis
    unfolding page_table_update_from root_ptr [OF assms(1)]
    using split_vpn_length(2) split_vpn_small r t
    by (rule update_from_total) (use assms(2) in \<open>simp add: split_vpn_length\<close>)
qed

lemma new_table_ok:
  assumes "0 < lim"
  shows "\<exists>pt s. new_table lim = Inr (pt, s) \<and> table_root s pt \<and>
            length (heap s) = 1 \<and> vm_limit s = lim"
proof -
  have r: "reg_ok (init_state lim)" by (rule reg_ok_init)
  obtain pt s where a: "alloc_page_frame (init_state lim) = Inr (pt, s)"
    using alloc_page_frame_ok [OF r] assms by (auto simp: init_state_def NPAGES_def)
  note A = alloc_page_frame_reg_ok [OF r a]
  have "length (heap s) = 1" "vm_limit s = lim" using A(2,3) by (simp_all add: init_state_def)
  then show ?thesis using a fresh_root [OF r a] by (simp add: new_table_def)
qed

lemma fresh_query:
  assumes "alloc_page_frame s = Inr (pt, s')"
  shows "page_table_query s' nm pt vpn = Inr nm"
proof -
  have "query_walk (take 4 (split_vpn vpn)) (phys_to_virt s' (push_bit 13 pt)) s' = Inr None"
    using assms by (rule fresh_walk) (use split_vpn_small [of vpn] in \<open>auto simp: split_vpn_list\<close>)
  then show ?thesis unfolding page_table_query_def levels_minus_1 Let_def by simp
qed

lemma update_root_length:
  assumes "table_root s pt" "page_table_update s nm pt v p = Inr s'"
  shows "length (heap s') \<le> length (heap s) + 4"
proof -
  let ?b = "frame_of pt"
  have r: "reg_ok s" and t: "tree_ok (heap s) (length (split_vpn v) - 1) ?b"
    using assms(1) by (simp_all add: table_root_def split_vpn_length)
  have u: "update_from nm p (split_vpn v) (Ptr (Some ?b) 0) s = Inr s'"
    using assms(2) by (simp add: page_table_update_from root_ptr [OF assms(1)])
  note U = update_from_effect [OF split_vpn_length(2) split_vpn_small r t u]
  show ?thesis
    using effectD(6) [OF U [THEN conjunct2, THEN conjunct2]] by (simp add: split_vpn_length)
qed

lemma offset_small: "unat (a AND 0x1fff :: u64) < 8192"
proof -
  have "a AND 0x1fff \<le> 0x1fff" by (rule word_and_le1)
  then show ?thesis by (simp add: word_le_nat_alt)
qed

section \<open>Claims\<close>

text \<open>
  C1. Let \<open>pt\<close> be the root of a page table and \<open>ppn\<close> a valid page number other
  than the sentinel, valid meaning that it fits the 51-bit frame-number field of an entry
  (as every page number handed out by \<open>alloc_page_frame\<close> does). Then every state in
  which \<open>page_table_update\<close> on \<open>vpn\<close> and \<open>ppn\<close> returns has
  \<open>page_table_query\<close> on \<open>vpn\<close> return \<open>ppn\<close>; and the update does return when
  four more frames fit under the capacity of the registry and the kernel grants them.
\<close>

theorem update_then_query:
  assumes "table_root s pt" "ppn \<noteq> nm" "unat ppn < 2 ^ 51"
  shows "(length (heap s) + 4 \<le> NPAGES \<and> length (heap s) + 4 \<le> vm_limit s \<longrightarrow>
            (\<exists>s'. page_table_update s nm pt vpn ppn = Inr s')) \<and>
         (\<forall>s'. page_table_update s nm pt vpn ppn = Inr s' \<longrightarrow>
            page_table_query s' nm pt vpn = Inr ppn)"
proof (intro conjI impI allI)
  assume "length (heap s) + 4 \<le> NPAGES \<and> length (heap s) + 4 \<le> vm_limit s"
  then show "\<exists>s'. page_table_update s nm pt vpn ppn = Inr s'"
    using page_table_update_total [OF assms(1)] by blast
next
  fix s' assume "page_table_update s nm pt vpn ppn = Inr s'"
  then show "page_table_query s' nm pt vpn = Inr ppn"
    using update_root(3) [OF assms(1), of nm vpn ppn s' vpn] assms(2) take_bit_51_small [OF assms(3)]
    by simp
qed

theorem update_then_query_witness:
  "run_query (run_update (new_table 8) (- 1) 0xcafecafeeee 0xf00d) (- 1) 0xcafecafeeee = Inr 0xf00d"
proof -
  obtain pt s where n: "new_table 8 = Inr (pt, s)" and tr: "table_root s pt"
    and cap: "length (heap s) = 1" "vm_limit s = 8"
    using new_table_ok [of 8] by auto
  have "(0xf00d :: u64) \<noteq> - 1" "unat (0xf00d :: u64) < 2 ^ 51" by simp_all
  note T = update_then_query [OF tr this, of "0xcafecafeeee"]
  obtain s' where u: "page_table_update s (- 1) pt 0xcafecafeeee 0xf00d = Inr s'"
    using T cap by (auto simp: NPAGES_def)
  then have "page_table_query s' (- 1) pt 0xcafecafeeee = Inr 0xf00d" using T by blast
  then show ?thesis by (simp add: run_query_def run_update_def n u)
qed

text \<open>
  C2. On a root just returned by \<open>alloc_page_frame\<close>, with no update on it,
  \<open>page_table_query\<close> returns the sentinel for every \<open>vpn\<close>: the frame of the root
  is a region of the store that is all zero, and the all-zero entry read at the first
  level is not valid.
\<close>

theorem fresh_root_unmapped:
  assumes "alloc_page_frame s = Inr (root, s')"
  shows "page_table_query s' nm root vpn = Inr nm \<and>
         (\<exists>b<length (heap s'). phys_to_virt s' (push_bit 13 root) = Ptr (Some b) 0 \<and>
            heap s' ! b = zero_frame)"
  using fresh_query [OF assms] fresh_frame [OF assms] by blast

theorem fresh_root_unmapped_witness:
  "run_query (new_table 8) (- 1) 0xcafecafeeee = Inr (- 1)"
proof -
  obtain pt s where n: "alloc_page_frame (init_state 8) = Inr (pt, s)"
    using new_table_ok [of 8] by (auto simp: new_table_def)
  show ?thesis
    using fresh_root_unmapped [OF n, of "- 1" "0xcafecafeeee"]
    by (simp add: run_query_def new_table_def n)
qed

text \<open>
  C3. On a page table with root \<open>root\<close>, once an update of \<open>vpn\<close> to any page
  number has returned, the update of \<open>vpn\<close> to the sentinel returns as well, and the
  query of \<open>vpn\<close> after it returns the sentinel.
\<close>

theorem insert_then_remove:
  assumes "table_root s root" "page_table_update s nm root vpn ppn = Inr s1"
  shows "\<exists>s2. page_table_update s1 nm root vpn nm = Inr s2 \<and>
              page_table_query s2 nm root vpn = Inr nm"
proof -
  have t1: "table_root s1 root" using assms by (rule update_root(1))
  obtain s2 where u: "page_table_update s1 nm root vpn nm = Inr s2"
    using page_table_update_total [OF t1, of nm nm vpn] by auto
  have "page_table_query s2 nm root vpn = Inr nm"
    using update_root(3) [OF t1 u, of vpn] by simp
  then show ?thesis using u by blast
qed

theorem insert_then_remove_witness:
  "run_query (run_update (run_update (new_table 8) (- 1) 0xcafecafeeee 0xf00d)
      (- 1) 0xcafecafeeee (- 1)) (- 1) 0xcafecafeeee = Inr (- 1)"
proof -
  obtain pt s where n: "new_table 8 = Inr (pt, s)" and tr: "table_root s pt"
    and cap: "length (heap s) = 1" "vm_limit s = 8"
    using new_table_ok [of 8] by auto
  obtain s1 where u1: "page_table_update s (- 1) pt 0xcafecafeeee 0xf00d = Inr s1"
    using page_table_update_total [OF tr, of "0xf00d" "- 1" "0xcafecafeeee"] cap
    by (auto simp: NPAGES_def)
  obtain s2 where u2: "page_table_update s1 (- 1) pt 0xcafecafeeee (- 1) = Inr s2"
    and q: "page_table_query s2 (- 1) pt 0xcafecafeeee = Inr (- 1)"
    using insert_then_remove [OF tr u1] by blast
  show ?thesis by (simp add: run_query_def run_update_def n u1 u2 q)
qed

text \<open>
  C4. On a page table with root \<open>root\<close>, once an update of \<open>vpn\<close> to
  \<open>p1\<close> has returned, a second update of \<open>vpn\<close> to \<open>p2\<close> (neither being the
  sentinel) returns without error, and the query of \<open>vpn\<close> after it returns the low 51
  bits of \<open>p2\<close>, which is \<open>p2\<close> itself when \<open>p2\<close> is below \<open>2 ^ 51\<close>. The first
  mapping leaves no trace.
\<close>

theorem remap_last_write_wins:
  assumes "table_root s root" "p1 \<noteq> nm" "p2 \<noteq> nm"
    "page_table_update s nm root vpn p1 = Inr s1"
  shows "\<exists>s2. page_table_update s1 nm root vpn p2 = Inr s2 \<and>
              page_table_query s2 nm root vpn = Inr (take_bit 51 p2)"
proof -
  have t1: "table_root s1 root" using assms(1,4) by (rule update_root(1))
  have "lookup (heap s1) (map unat (split_vpn vpn)) (frame_of root) \<noteq> 0"
    using update_root_leaf [OF assms(1,4)] leaf_val_nonzero [OF assms(2)] by simp
  then obtain s2 where u: "page_table_update s1 nm root vpn p2 = Inr s2"
    using page_table_update_total [OF t1, of p2 nm vpn] by auto
  have "page_table_query s2 nm root vpn = Inr (take_bit 51 p2)"
    using update_root(3) [OF t1 u, of vpn] assms(3) by simp
  then show ?thesis using u by blast
qed

theorem remap_last_write_wins_witness:
  "run_query (run_update (run_update (new_table 8) (- 1) 0xf0f0f0 0xaaaa)
      (- 1) 0xf0f0f0 0xbbbb) (- 1) 0xf0f0f0 = Inr 0xbbbb"
proof -
  obtain pt s where n: "new_table 8 = Inr (pt, s)" and tr: "table_root s pt"
    and cap: "length (heap s) = 1" "vm_limit s = 8"
    using new_table_ok [of 8] by auto
  obtain s1 where u1: "page_table_update s (- 1) pt 0xf0f0f0 0xaaaa = Inr s1"
    using page_table_update_total [OF tr, of "0xaaaa" "- 1" "0xf0f0f0"] cap
    by (auto simp: NPAGES_def)
  have ne: "(0xaaaa :: u64) \<noteq> - 1" "(0xbbbb :: u64) \<noteq> - 1" by simp_all
  obtain s2 where u2: "page_table_update s1 (- 1) pt 0xf0f0f0 0xbbbb = Inr s2"
    and q: "page_table_query s2 (- 1) pt 0xf0f0f0 = Inr (take_bit 51 0xbbbb)"
    using remap_last_write_wins [OF tr ne u1] by blast
  show ?thesis by (simp add: run_query_def run_update_def n u1 u2 q)
qed

text \<open>
  Without the bound on \<open>p2\<close> the query does not return \<open>p2\<close>: with the all-ones
  sentinel, on a new table, after mapping page 0 to 1 and then to \<open>2 ^ 51\<close> the query
  returns 0, since \<open>(2 ^ 51 << 13) | 1\<close> is 1 in 64 bits.
\<close>

theorem remap_truncates_counterexample:
  "run_query (run_update (run_update (new_table 8) (- 1) 0 1) (- 1) 0 0x8000000000000) (- 1) 0
     \<noteq> Inr 0x8000000000000"
proof -
  obtain pt s where n: "new_table 8 = Inr (pt, s)" and tr: "table_root s pt"
    and cap: "length (heap s) = 1" "vm_limit s = 8"
    using new_table_ok [of 8] by auto
  obtain s1 where u1: "page_table_update s (- 1) pt 0 1 = Inr s1"
    using page_table_update_total [OF tr, of 1 "- 1" 0] cap by (auto simp: NPAGES_def)
  have t1: "table_root s1 pt" using tr u1 by (rule update_root(1))
  have "leaf_val (- 1) (1 :: u64) \<noteq> 0" by (rule leaf_val_nonzero) simp
  then have "lookup (heap s1) (map unat (split_vpn 0)) (frame_of pt) \<noteq> 0"
    using update_root_leaf [OF tr u1] by simp
  then obtain s2 where u2: "page_table_update s1 (- 1) pt 0 0x8000000000000 = Inr s2"
    using page_table_update_total [OF t1, of "0x8000000000000" "- 1" 0] by auto
  have "page_table_query s2 (- 1) pt 0 = Inr (take_bit 51 0x8000000000000)"
    using update_root(3) [OF t1 u2, of 0] by simp
  then show ?thesis by (simp add: run_query_def run_update_def n u1 u2)
qed

text \<open>
  C5. A virtual page number is a 50-bit value. When \<open>v1\<close> and \<open>v2\<close> differ in their
  low 50 bits, an update of \<open>v1\<close> (to any page number, the sentinel included) that
  returns leaves the result of the query of \<open>v2\<close> as it was. This covers two numbers
  that differ in the last 10-bit index only.
\<close>

theorem update_non_interference:
  assumes "table_root s root" "take_bit 50 v1 \<noteq> take_bit 50 v2"
    "page_table_update s nm root v1 p1 = Inr s'"
  shows "page_table_query s' nm root v2 = page_table_query s nm root v2"
proof -
  have "split_vpn v2 \<noteq> split_vpn v1" using assms(2) split_vpn_take_bit [of v2 v1] by auto
  then show ?thesis using update_root(3) [OF assms(1,3), of v2] by simp
qed

theorem update_non_interference_witness:
  "run_query (run_update (run_update (new_table 16) (- 1) 0x555550001 0x2001)
      (- 1) 0x555550000 0x2000) (- 1) 0x555550001 = Inr 0x2001"
proof -
  obtain pt s where n: "new_table 16 = Inr (pt, s)" and tr: "table_root s pt"
    and cap: "length (heap s) = 1" "vm_limit s = 16"
    using new_table_ok [of 16] by auto
  obtain s1 where u1: "page_table_update s (- 1) pt 0x555550001 0x2001 = Inr s1"
    using page_table_update_total [OF tr, of "0x2001" "- 1" "0x555550001"] cap
    by (auto simp: NPAGES_def)
  have q1: "page_table_query s1 (- 1) pt 0x555550001 = Inr 0x2001"
    using update_root(3) [OF tr u1, of "0x555550001"] by simp
  have t1: "table_root s1 pt" using tr u1 by (rule update_root(1))
  have "length (heap s1) \<le> 5" "vm_limit s1 = 16"
    using update_root_length [OF tr u1] update_root(2) [OF tr u1] cap by simp_all
  then obtain s2 where u2: "page_table_update s1 (- 1) pt 0x555550000 0x2000 = Inr s2"
    using page_table_update_total [OF t1, of "0x2000" "- 1" "0x555550000"]
    by (auto simp: NPAGES_def)
  have "take_bit 50 (0x555550000 :: u64) \<noteq> take_bit 50 0x555550001" by simp
  note update_non_interference [OF t1 this u2]
  then show ?thesis by (simp add: run_query_def run_update_def n u1 u2 q1)
qed

text \<open>
  C6. When the interior walk for \<open>vpn\<close> reaches an entry that is not valid, the update
  of \<open>vpn\<close> to the sentinel returns the state it was given: no frame allocated, no
  entry written, no error. On a root just returned by \<open>alloc_page_frame\<close> this is the
  case for every \<open>vpn\<close>.
\<close>

theorem remove_unmapped_noop:
  "(query_walk (take (PAGE_TABLE_LEVELS - 1) (split_vpn vpn))
        (phys_to_virt s (push_bit 13 pt)) s = Inr None \<longrightarrow>
      page_table_update s nm pt vpn nm = Inr s) \<and>
   (alloc_page_frame s0 = Inr (pt0, s) \<longrightarrow> page_table_update s nm pt0 vpn nm = Inr s)"
proof -
  have 1: "page_table_update s nm pt vpn nm = Inr s"
    if "query_walk (take 4 (split_vpn vpn)) (phys_to_virt s (push_bit 13 pt)) s = Inr None" for pt
    unfolding page_table_update_def levels_minus_1 Let_def
    by (simp add: walk_none_update [OF that])
  have 2: "query_walk (take 4 (split_vpn vpn)) (phys_to_virt s (push_bit 13 pt0)) s = Inr None"
    if "alloc_page_frame s0 = Inr (pt0, s)"
    using that by (rule fresh_walk) (use split_vpn_small [of vpn] in \<open>auto simp: split_vpn_list\<close>)
  show ?thesis unfolding levels_minus_1 using 1 2 by blast
qed

theorem remove_unmapped_noop_witness:
  "run_update (new_table 8) (- 1) 0xcafecafeeee (- 1) = new_table 8"
proof -
  obtain pt s where n: "alloc_page_frame (init_state 8) = Inr (pt, s)"
    using new_table_ok [of 8] by (auto simp: new_table_def)
  have w: "query_walk (take (PAGE_TABLE_LEVELS - 1) (split_vpn 0xcafecafeeee))
      (phys_to_virt s (push_bit 13 pt)) s = Inr None"
    unfolding levels_minus_1 using n
    by (rule fresh_walk) (use split_vpn_small [of "0xcafecafeeee"] in \<open>auto simp: split_vpn_list\<close>)
  note T = remove_unmapped_noop [of "0xcafecafeeee" s pt "- 1" "init_state 8" pt]
  have "page_table_update s (- 1) pt 0xcafecafeeee (- 1) = Inr s" using T w n by blast
  then show ?thesis by (simp add: run_update_def new_table_def n)
qed

text \<open>
  C7. In a state of the frame store, \<open>phys_to_virt\<close> returns \<open>NULL\<close>
  when the recovered index \<open>(phys_addr >> 13) - BIAS\<close> is at or beyond the capacity
  \<open>2 ^ 20\<close>. Below the capacity it returns the registry entry moved by the low 13 bits
  of the address: for an allocated index that is the owning frame at that byte offset; for
  an index not yet allocated the entry is still null, and the result is the null pointer
  moved by the offset, which is \<open>NULL\<close> only for offset 0.
\<close>

theorem phys_to_virt_cases:
  assumes "reg_ok s"
  shows "phys_to_virt s a =
           (if NPAGES \<le> frame_of (drop_bit 13 a) then NULL
            else if frame_of (drop_bit 13 a) < unat (nalloc s)
              then Ptr (Some (frame_of (drop_bit 13 a))) (a AND 0x1fff)
              else Ptr None (a AND 0x1fff)) \<and>
         unat (nalloc s) = length (heap s) \<and> unat (a AND 0x1fff) < 8192"
proof -
  have "drop_bit 13 a - BIAS < of_nat NPAGES \<longleftrightarrow> frame_of (drop_bit 13 a) < NPAGES"
    by (simp add: word_less_nat_alt unat_NPAGES frame_of_def)
  then show ?thesis
    using assms offset_small [of a]
    by (auto simp: phys_to_virt_def Let_def reg_ok_def ptr_add_def frame_of_def)
qed

theorem phys_to_virt_cases_witness:
  "phys_to_virt (init_state 8) 0 = NULL \<and>
   phys_to_virt (init_state 8) 0x17555555a008 = Ptr None 8 \<and>
   phys_to_virt \<lparr>nalloc = 1, pages = (\<lambda>_. NULL)(0 := Ptr (Some 0) 0), heap = [zero_frame],
       vm_limit = 8\<rparr> 0x17555555a008 = Ptr (Some 0) 8"
proof -
  let ?s = "\<lparr>nalloc = 1, pages = (\<lambda>_. NULL)(0 := Ptr (Some 0) 0), heap = [zero_frame],
       vm_limit = 8\<rparr>"
  have r: "reg_ok ?s" by (simp add: reg_ok_def NPAGES_def)
  have f: "frame_of 0xbaaaaaad = 0" "frame_of 0 = 18446744070577804627"
    "(0x17555555a008 :: u64) AND 0x1fff = 8"
    by (simp_all add: frame_of_def BIAS_def)
  show ?thesis
    using phys_to_virt_cases [OF reg_ok_init, of 8 0]
      phys_to_virt_cases [OF reg_ok_init, of 8 "0x17555555a008"]
      phys_to_virt_cases [OF r, of "0x17555555a008"]
    by (simp add: f NPAGES_def init_state_def)
qed

text \<open>
  An index that is not allocated does not always give \<open>NULL\<close>: in the initial state
  no frame is allocated, the address \<open>(BIAS << 13) + 8\<close> has index 0 and offset 8, and
  the result is the null registry entry moved by 8.
\<close>

theorem phys_to_virt_unallocated_counterexample:
  "unat (nalloc (init_state 8)) \<le> unat (drop_bit 13 (0x17555555a008 :: u64) - BIAS) \<and>
   phys_to_virt (init_state 8) 0x17555555a008 \<noteq> NULL"
  by (simp add: phys_to_virt_def init_state_def BIAS_def NPAGES_def ptr_add_def drop_bit_eq_div)

text \<open>
  C8. When the counter is at \<open>2 ^ 20\<close>, \<open>alloc_page_frame\<close> fails with
  ``out of physical memory''. Below \<open>2 ^ 20\<close> it fails with ``mmap failed'' when the
  kernel does not grant the region, and otherwise returns the counter plus \<open>BIAS\<close>.
  Whenever it returns, the counter was below \<open>2 ^ 20\<close> and has grown by exactly one
  without wrapping, the registry entry written is the one at the old counter, and the
  page number returned lies in the window from \<open>BIAS\<close> up to \<open>BIAS + 2 ^ 20\<close>: it
  is not zero, not the all-ones word, and not any sentinel outside that window.
\<close>

theorem alloc_page_frame_outcomes:
  "(nalloc s = of_nat NPAGES \<longrightarrow> alloc_page_frame s = Inl OutOfPhysicalMemory) \<and>
   (unat (nalloc s) < NPAGES \<and> vm_limit s \<le> length (heap s) \<longrightarrow>
      alloc_page_frame s = Inl MmapFailed) \<and>
   (unat (nalloc s) < NPAGES \<and> length (heap s) < vm_limit s \<longrightarrow>
      (\<exists>s'. alloc_page_frame s = Inr (nalloc s + BIAS, s'))) \<and>
   (alloc_page_frame s = Inr (ppn, s') \<longrightarrow>
      unat (nalloc s) < NPAGES \<and> ppn = nalloc s + BIAS \<and>
      unat ppn = unat (nalloc s) + unat BIAS \<and>
      unat (nalloc s') = unat (nalloc s) + 1 \<and>
      pages s' = (pages s)(unat (nalloc s) := Ptr (Some (length (heap s))) 0) \<and>
      BIAS \<noteq> 0 \<and> ppn \<noteq> 0 \<and> ppn \<noteq> - 1 \<and>
      (\<forall>nm. unat nm < unat BIAS \<or> unat BIAS + NPAGES \<le> unat nm \<longrightarrow> ppn \<noteq> nm))"
proof (intro conjI impI)
  assume "nalloc s = of_nat NPAGES"
  then show "alloc_page_frame s = Inl OutOfPhysicalMemory" by (simp add: alloc_page_frame_def)
next
  assume a: "unat (nalloc s) < NPAGES \<and> vm_limit s \<le> length (heap s)"
  then have "nalloc s \<noteq> of_nat NPAGES" using unat_NPAGES by auto
  then show "alloc_page_frame s = Inl MmapFailed"
    using a by (simp add: alloc_page_frame_def mmap_anon_def Let_def)
next
  assume a: "unat (nalloc s) < NPAGES \<and> length (heap s) < vm_limit s"
  then have "nalloc s \<noteq> of_nat NPAGES" using unat_NPAGES by auto
  then show "\<exists>s'. alloc_page_frame s = Inr (nalloc s + BIAS, s')"
    using a by (simp add: alloc_page_frame_def mmap_anon_def Let_def)
next
  assume a: "alloc_page_frame s = Inr (ppn, s')"
  note A = alloc_page_frame_Inr [OF a]
  have n: "of_nat (unat (nalloc s)) = nalloc s" by simp
  note S = small_frame [OF A(1), unfolded n]
  show "unat (nalloc s) < NPAGES" by (rule A(1))
  show "ppn = nalloc s + BIAS" by (rule A(3))
  show u: "unat ppn = unat (nalloc s) + unat BIAS" using S(2) by (simp add: A(3) unat_BIAS)
  show "unat (nalloc s') = unat (nalloc s) + 1"
    using A(1) by (simp add: A(4) unat_word_ariths NPAGES_def)
  show "pages s' = (pages s)(unat (nalloc s) := Ptr (Some (length (heap s))) 0)"
    by (simp add: A(4))
  show "BIAS \<noteq> 0" by (simp add: BIAS_def)
  have "unat ppn \<noteq> unat (0 :: u64)" using u by (simp add: unat_BIAS)
  then show "ppn \<noteq> 0" by auto
  have "unat (- 1 :: u64) = 18446744073709551615"
    by (simp add: unsigned_minus_1_eq_mask mask_eq_exp_minus_1)
  then have "unat ppn \<noteq> unat (- 1 :: u64)" using u A(1) by (simp add: unat_BIAS NPAGES_def)
  then show "ppn \<noteq> - 1" by auto
  show "\<forall>nm. unat nm < unat BIAS \<or> unat BIAS + NPAGES \<le> unat nm \<longrightarrow> ppn \<noteq> nm"
    using u A(1) by auto
qed

theorem alloc_page_frame_outcomes_witness:
  "alloc_page_frame \<lparr>nalloc = 0x100000, pages = (\<lambda>_. NULL), heap = [], vm_limit = 8\<rparr>
     = Inl OutOfPhysicalMemory \<and>
   alloc_page_frame \<lparr>nalloc = 0, pages = (\<lambda>_. NULL), heap = [], vm_limit = 0\<rparr>
     = Inl MmapFailed \<and>
   (\<exists>s'. alloc_page_frame (init_state 8) = Inr (0xbaaaaaad, s') \<and> unat (nalloc s') = 1)"
proof -
  let ?full = "\<lparr>nalloc = 0x100000, pages = (\<lambda>_. NULL), heap = [], vm_limit = 8\<rparr>"
  let ?none = "\<lparr>nalloc = 0, pages = (\<lambda>_. NULL), heap = [], vm_limit = 0\<rparr>"
  have 1: "alloc_page_frame ?full = Inl OutOfPhysicalMemory"
    using alloc_page_frame_outcomes [of ?full] by (simp add: NPAGES_def)
  have 2: "alloc_page_frame ?none = Inl MmapFailed"
    using alloc_page_frame_outcomes [of ?none] by (simp add: NPAGES_def)
  obtain s' where 3: "alloc_page_frame (init_state 8) = Inr (0xbaaaaaad, s')"
    using alloc_page_frame_outcomes [of "init_state 8"]
    by (auto simp: NPAGES_def init_state_def BIAS_def)
  have "unat (nalloc s') = 1"
    using alloc_page_frame_outcomes [of "init_state 8" "0xbaaaaaad" s'] 3
    by (simp add: init_state_def)
  then show ?thesis using 1 2 3 by blast
qed

text \<open>
  Fewer than \<open>2 ^ 20\<close> frames allocated does not make the call return: in the initial
  state, when the kernel grants no region, it ends with ``mmap failed''.
\<close>

theorem alloc_mmap_failure_counterexample:
  "unat (nalloc (init_state 0)) < NPAGES \<and> alloc_page_frame (init_state 0) = Inl MmapFailed"
  by (simp add: alloc_page_frame_def mmap_anon_def init_state_def NPAGES_def)

text \<open>
  C9. \<open>split_vpn\<close> is a function of its 64-bit argument alone. It returns five
  indices, most significant first: \<open>indices[i] = (vpn >> (10 * (4 - i))) & 0x3ff\<close> for
  \<open>i\<close> from 0 to 4, so index 0 is the top-level index and index 4 the leaf index.
  Flipping any of the bits 50..63 of the argument (the bits of \<open>h\<close>, moved up by
  50) leaves the result unchanged.
\<close>

theorem split_vpn_indices:
  "split_vpn vpn = map (\<lambda>i. drop_bit (10 * (4 - i)) vpn AND 0x3ff) [0..<5]
   \<and> split_vpn (vpn XOR push_bit 50 h) = split_vpn vpn"
  by (simp add: split_vpn_high_bits) (simp add: split_vpn_list upt_rec)

text \<open>
  C10. The leaf entry keeps the low 51 bits of the page number. After an update of
  \<open>vpn\<close> to \<open>ppn\<close> (not the sentinel) has returned on a page table, the leaf entry on
  the path of \<open>vpn\<close> is \<open>(ppn << 13) | 1\<close> in 64 bits, and the query of \<open>vpn\<close>
  returns \<open>ppn mod 2 ^ 51\<close>.
\<close>

theorem leaf_keeps_low_51_bits:
  assumes "table_root s pt" "ppn \<noteq> nm" "page_table_update s nm pt vpn ppn = Inr s'"
  shows "page_table_query s' nm pt vpn = Inr (take_bit 51 ppn) \<and>
         unat (take_bit 51 ppn) = unat ppn mod 2 ^ 51 \<and>
         lookup (heap s') (map unat (split_vpn vpn)) (frame_of pt) = push_bit 13 ppn OR 1"
proof -
  have "unat (take_bit 51 ppn) = unat ppn mod 2 ^ 51"
    by (simp only: unsigned_take_bit_eq) (simp only: take_bit_eq_mod)
  then show ?thesis
    using update_root(3) [OF assms(1,3), of vpn] update_root_leaf [OF assms(1,3)] assms(2)
    by (simp add: leaf_val_def)
qed

theorem leaf_keeps_low_51_bits_witness:
  "run_query (run_update (new_table 8) (- 1) 0xabcdef 0x8000000000005) (- 1) 0xabcdef = Inr 5"
proof -
  obtain pt s where n: "new_table 8 = Inr (pt, s)" and tr: "table_root s pt"
    and cap: "length (heap s) = 1" "vm_limit s = 8"
    using new_table_ok [of 8] by auto
  obtain s1 where u1: "page_table_update s (- 1) pt 0xabcdef 0x8000000000005 = Inr s1"
    using page_table_update_total [OF tr, of "0x8000000000005" "- 1" "0xabcdef"] cap
    by (auto simp: NPAGES_def)
  have "(0x8000000000005 :: u64) \<noteq> - 1" by simp
  note leaf_keeps_low_51_bits [OF tr this u1]
  then show ?thesis by (simp add: run_query_def run_update_def n u1)
qed

end
